theory Spec2Isabelle
  imports Main "HOL-Library.Word" "HOL-Library.Signed_Division"
begin

section \<open>Grid mazes: data model\<close>

text \<open>
  The development follows \<^verbatim>\<open>maze.go\<close> (package \<^verbatim>\<open>maze\<close>, the version with
  cell states and template images).  Go's \<^verbatim>\<open>int\<close> is 64 bits wide; every integer below
  is a cell count, a cell index or a coordinate of a grid that was allocated in memory, so
  no operation overflows and the integers are modelled by \<^typ>\<open>nat\<close> and \<^typ>\<open>int\<close>.
\<close>

text \<open>
  \<^verbatim>\<open>gridMazeCell\<close>: the array \<^verbatim>\<open>walls [4]bool\<close> is a map from the index (0 left, 1 top,
  2 right, 3 bottom) to the flag; \<^verbatim>\<open>state\<close> is the \<^verbatim>\<open>cellState\<close> (0 normal, 1 solution
  path, 2 excluded); \<^verbatim>\<open>djSet\<close> is the address of the cell's disjoint-set node.
\<close>

record gridMazeCell =
  walls :: "nat \<Rightarrow> bool"
  state :: nat
  djSet :: nat

text \<open>\<^verbatim>\<open>gridNeighborInfo\<close>: a base cell and the direction (2 right, 3 down) of its neighbor.\<close>

record gridNeighborInfo =
  baseIndex :: nat
  neighborDirection :: nat

text \<open>
  \<^verbatim>\<open>GridMaze\<close>.  The field \<^verbatim>\<open>generationTime\<close> (a wall-clock measurement) is left out.
  The start and end indices are \<^verbatim>\<open>-1\<close> until they are chosen.
\<close>

record GridMaze =
  width :: nat
  height :: nat
  cells :: "gridMazeCell list"
  startCellIndex :: int
  endCellIndex :: int
  neighbors :: "gridNeighborInfo list"
  randomSeed :: int

text \<open>
  The errors of the package, one constructor for each \<^verbatim>\<open>fmt.Errorf\<close> of the source, and
  \<^verbatim>\<open>NilDereference\<close> and \<^verbatim>\<open>IndexOutOfRange\<close> for the run-time panics of reading through
  a nil pointer and of indexing out of range, \<^verbatim>\<open>DivisionByZero\<close> for the one of an integer
  division by zero, \<^verbatim>\<open>BadDirection\<close> for \<^verbatim>\<open>panic("Bad direction.")\<close>.
\<close>

datatype error =
    WidthHeightTooSmall
  | SizeTooBig
  | ErrorGeneratingMaze error
  | ErrorInitializingState error
  | InvalidTemplatePixel nat
  | NoStartLocation
  | NoEndLocation
  | NeighborNotBelowOrRight
  | FailedToSolveMaze
  | NilDereference
  | IndexOutOfRange
  | DivisionByZero
  | BadDirection

section \<open>Disjoint sets\<close>

text \<open>
  \<^verbatim>\<open>disjointSet\<close> nodes live in a store: a list of nodes, a pointer being the position of
  its node.  \<^verbatim>\<open>newDisjointSet\<close> allocates the next position.
\<close>

record disjointSet =
  parent :: nat
  rank :: nat

definition newDisjointSet :: "disjointSet list \<Rightarrow> nat \<times> disjointSet list" where
  "newDisjointSet h = (length h, h @ [\<lparr>parent = length h, rank = 0\<rparr>])"

text \<open>
  \<^verbatim>\<open>findSet\<close> recurses along the parent pointers and never returns on a cyclic chain;
  the first argument bounds the depth of the recursion, and \<open>None\<close> says that the bound
  was reached.  After \<^verbatim>\<open>s.parent = s.parent.findSet()\<close> the value returned,
  \<^verbatim>\<open>s.parent\<close>, is the root found.
\<close>

fun findSet :: "nat \<Rightarrow> disjointSet list \<Rightarrow> nat \<Rightarrow> (nat \<times> disjointSet list) option" where
  "findSet 0 h s = None"
| "findSet (Suc k) h s =
     (if s \<noteq> parent (h ! s) then
        (case findSet k h (parent (h ! s)) of
           None \<Rightarrow> None
         | Some (r, h') \<Rightarrow> Some (r, h'[s := (h' ! s)\<lparr>parent := r\<rparr>]))
      else Some (parent (h ! s), h))"

definition union_ds :: "nat \<Rightarrow> disjointSet list \<Rightarrow> nat \<Rightarrow> nat \<Rightarrow> disjointSet list option" where
  "union_ds k h s other =
     (case findSet k h s of
        None \<Rightarrow> None
      | Some (x, h1) \<Rightarrow>
          (case findSet k h1 other of
             None \<Rightarrow> None
           | Some (y, h2) \<Rightarrow>
               if rank (h2 ! x) > rank (h2 ! y) then Some (h2[y := (h2 ! y)\<lparr>parent := x\<rparr>])
               else
                 (let h3 = h2[x := (h2 ! x)\<lparr>parent := y\<rparr>]
                  in if rank (h3 ! x) = rank (h3 ! y)
                     then Some (h3[y := (h3 ! y)\<lparr>rank := rank (h3 ! y) + 1\<rparr>])
                     else Some h3)))"

section \<open>Maze generation\<close>

text \<open>
  \<^verbatim>\<open>initGridMazeCell\<close> gives the cell a new singleton set and sets its four walls; the
  state of the cell stays.
\<close>

definition initGridMazeCell :: "disjointSet list \<Rightarrow> gridMazeCell \<Rightarrow> disjointSet list \<times> gridMazeCell" where
  "initGridMazeCell h c =
     (let (a, h') = newDisjointSet h in (h', c\<lparr>djSet := a, walls := (\<lambda>i. True)\<rparr>))"

fun initCells :: "disjointSet list \<Rightarrow> gridMazeCell list \<Rightarrow> disjointSet list \<times> gridMazeCell list" where
  "initCells h [] = (h, [])"
| "initCells h (c # cs) =
     (let (h1, c') = initGridMazeCell h c; (h2, cs') = initCells h1 cs in (h2, c' # cs'))"

text \<open>
  \<^verbatim>\<open>allocateMaze\<close>.  The cell count is the 64-bit product of the two arguments, which
  the source compares with zero to detect an overflow.  A cell that \<^verbatim>\<open>make\<close> allocates has
  no wall set, state 0 and a nil set pointer (position 0 here; generation overwrites it).
\<close>

definition zeroCell :: gridMazeCell where
  "zeroCell = \<lparr>walls = (\<lambda>i. False), state = 0, djSet = 0\<rparr>"

definition allocateMaze :: "int \<Rightarrow> int \<Rightarrow> error + GridMaze" where
  "allocateMaze w h =
     (if w < 1 \<or> h < 1 then Inl WidthHeightTooSmall
      else
        (let cellCount = sint (word_of_int w * word_of_int h :: 64 word)
         in if cellCount \<le> 0 then Inl SizeTooBig
            else Inr \<lparr>width = nat w, height = nat h,
                      cells = replicate (nat cellCount) zeroCell,
                      startCellIndex = - 1, endCellIndex = - 1,
                      neighbors = [], randomSeed = 0\<rparr>))"

text \<open>
  \<^verbatim>\<open>initDisjointNeighbors\<close>: the entries that one cell contributes, then the two nested
  loops over rows and columns.
\<close>

definition cellNeighbors :: "GridMaze \<Rightarrow> nat \<Rightarrow> nat \<Rightarrow> gridNeighborInfo list" where
  "cellNeighbors m row col =
     (let index = row * width m + col
      in if state (cells m ! index) = 2 then []
         else
           (if col \<noteq> width m - 1 \<and> state (cells m ! (index + 1)) \<noteq> 2
            then [\<lparr>baseIndex = index, neighborDirection = 2\<rparr>] else []) @
           (if row = height m - 1 then []
            else if state (cells m ! (index + width m)) \<noteq> 2
            then [\<lparr>baseIndex = index, neighborDirection = 3\<rparr>] else []))"

definition initDisjointNeighbors :: "GridMaze \<Rightarrow> error + GridMaze" where
  "initDisjointNeighbors m =
     (let initCount = (width m - 1) * height m + (height m - 1) * width m
      in if initCount = 0 then Inr m
         else Inr (m\<lparr>neighbors :=
                concat (map (\<lambda>row. concat (map (\<lambda>col. cellNeighbors m row col) [0..<width m]))
                  [0..<height m])\<rparr>))"

definition neighborIndex :: "GridMaze \<Rightarrow> gridNeighborInfo \<Rightarrow> error + nat" where
  "neighborIndex m n =
     (if neighborDirection n = 2 then Inr (baseIndex n + 1)
      else if neighborDirection n = 3 then Inr (baseIndex n + width m)
      else Inl NeighborNotBelowOrRight)"

text \<open>
  The random number generator is the sequence of its future raw draws; \<^verbatim>\<open>Intn n\<close>
  consumes one draw and reduces it below \<open>n\<close>.  Every sequence is allowed, so what is
  proved holds for the sequence of any source and seed.  \<^verbatim>\<open>rand.NewSource\<close> is a
  parameter \<open>src\<close> of the functions that call it.
\<close>

definition Intn :: "(nat \<Rightarrow> nat) \<Rightarrow> nat \<Rightarrow> nat \<times> (nat \<Rightarrow> nat)" where
  "Intn r n = (r 0 mod n, \<lambda>i. r (Suc i))"

text \<open>The state that generation works on: the maze, the store of set nodes, the generator.\<close>

record genState =
  maze :: GridMaze
  store :: "disjointSet list"
  rng :: "nat \<Rightarrow> nat"

text \<open>
  \<^verbatim>\<open>sampleNeighbor\<close> returns the entry drawn, or nil when its two cells are already in
  one set, and an error.  The fuel \<open>k\<close> bounds every loop and recursion below; \<open>None\<close>
  says that some loop did not finish within \<open>k\<close> iterations.
\<close>

definition sampleNeighbor ::
  "nat \<Rightarrow> genState \<Rightarrow> ((gridNeighborInfo option \<times> error option) \<times> genState) option" where
  "sampleNeighbor k s =
     (let m = maze s;
          (i, r') = Intn (rng s) (length (neighbors m));
          toReturn = neighbors m ! i;
          cellA = cells m ! baseIndex toReturn
      in case neighborIndex m toReturn of
           Inl e \<Rightarrow> Some ((None, Some e), s\<lparr>rng := r'\<rparr>)
         | Inr indexB \<Rightarrow>
             (let cellB = cells m ! indexB
              in case findSet k (store s) (djSet cellA) of
                   None \<Rightarrow> None
                 | Some (ra, h1) \<Rightarrow>
                     (case findSet k h1 (djSet cellB) of
                        None \<Rightarrow> None
                      | Some (rb, h2) \<Rightarrow>
                          if ra = rb then Some ((None, None), s\<lparr>store := h2, rng := r'\<rparr>)
                          else Some ((Some toReturn, None), s\<lparr>store := h2, rng := r'\<rparr>))))"

fun updateLoop :: "nat \<Rightarrow> nat \<Rightarrow> genState \<Rightarrow> nat \<Rightarrow> (error option \<times> genState) option" where
  "updateLoop k 0 s i = None"
| "updateLoop k (Suc f) s i =
     (let m = maze s
      in if i < length (neighbors m) then
           (let tmp = neighbors m ! i;
                cellA = cells m ! baseIndex tmp
            in case neighborIndex m tmp of
                 Inl e \<Rightarrow> Some (Some e, s)
               | Inr cellBIndex \<Rightarrow>
                   (let cellB = cells m ! cellBIndex
                    in case findSet k (store s) (djSet cellA) of
                         None \<Rightarrow> None
                       | Some (ra, h1) \<Rightarrow>
                           (case findSet k h1 (djSet cellB) of
                              None \<Rightarrow> None
                            | Some (rb, h2) \<Rightarrow>
                                if ra \<noteq> rb then updateLoop k f (s\<lparr>store := h2\<rparr>) (i + 1)
                                else updateLoop k f
                                  (s\<lparr>maze := m\<lparr>neighbors :=
                                        butlast ((neighbors m)[i := last (neighbors m)])\<rparr>,
                                     store := h2\<rparr>) i)))
         else Some (None, s))"

definition updateDisjointNeighbors :: "nat \<Rightarrow> genState \<Rightarrow> (error option \<times> genState) option" where
  "updateDisjointNeighbors k s = updateLoop k k s 0"

text \<open>\<^verbatim>\<open>getDisjointNeighbor\<close> returns the entry, the flag \<^verbatim>\<open>done\<close> and the error.\<close>

definition getDisjointNeighbor ::
  "nat \<Rightarrow> genState \<Rightarrow> ((gridNeighborInfo option \<times> bool \<times> error option) \<times> genState) option" where
  "getDisjointNeighbor k s =
     (if length (neighbors (maze s)) = 0 then Some ((None, True, None), s)
      else
        (case sampleNeighbor k s of
           None \<Rightarrow> None
         | Some ((toReturn, e), s1) \<Rightarrow>
             if e \<noteq> None then Some ((None, False, e), s1)
             else if toReturn \<noteq> None then Some ((toReturn, False, None), s1)
             else
               (case updateDisjointNeighbors k s1 of
                  None \<Rightarrow> None
                | Some (e2, s2) \<Rightarrow>
                    if e2 \<noteq> None then Some ((None, False, e2), s2)
                    else if length (neighbors (maze s2)) = 0 then Some ((None, True, None), s2)
                    else
                      (case sampleNeighbor k s2 of
                         None \<Rightarrow> None
                       | Some ((toReturn3, e3), s3) \<Rightarrow> Some ((toReturn3, False, e3), s3)))))"

definition clearWall :: "gridMazeCell list \<Rightarrow> nat \<Rightarrow> nat \<Rightarrow> gridMazeCell list" where
  "clearWall cs i w = cs[i := (cs ! i)\<lparr>walls := (walls (cs ! i))(w := False)\<rparr>]"

text \<open>
  The main loop of \<^verbatim>\<open>RegenerateFromSeed\<close>.  The entry \<^verbatim>\<open>tmp\<close> is read through a pointer:
  a nil pointer there is the panic \<^verbatim>\<open>NilDereference\<close>.
\<close>

fun generateLoop :: "nat \<Rightarrow> nat \<Rightarrow> genState \<Rightarrow> (error option \<times> genState) option" where
  "generateLoop k 0 s = None"
| "generateLoop k (Suc f) s =
     (if length (neighbors (maze s)) \<noteq> 0 then
        (case getDisjointNeighbor k s of
           None \<Rightarrow> None
         | Some ((tmp, done, e), s1) \<Rightarrow>
             if done then Some (None, s1)
             else if e \<noteq> None then Some (e, s1)
             else
               (case tmp of
                  None \<Rightarrow> Some (Some NilDereference, s1)
                | Some t \<Rightarrow>
                    (let m = maze s1;
                         a = baseIndex t;
                         b = (if neighborDirection t = 2 then a + 1 else a + width m);
                         cs = (if neighborDirection t = 2
                               then clearWall (clearWall (cells m) a 2) b 0
                               else clearWall (clearWall (cells m) a 3) b 1)
                     in case union_ds k (store s1) (djSet (cs ! a)) (djSet (cs ! b)) of
                          None \<Rightarrow> None
                        | Some h' \<Rightarrow>
                            generateLoop k f (s1\<lparr>maze := m\<lparr>cells := cs\<rparr>, store := h'\<rparr>))))
      else Some (None, s))"

text \<open>
  \<^verbatim>\<open>RegenerateFromSeed\<close>.  The set nodes of an earlier generation are unreachable once
  every cell has its new node, so the store starts empty.
\<close>

definition RegenerateFromSeed ::
  "nat \<Rightarrow> (int \<Rightarrow> nat \<Rightarrow> nat) \<Rightarrow> int \<Rightarrow> GridMaze \<Rightarrow> (error + GridMaze) option" where
  "RegenerateFromSeed k src seed m =
     (let (h, cs) = initCells [] (cells m)
      in case initDisjointNeighbors (m\<lparr>cells := cs\<rparr>) of
           Inl e \<Rightarrow> Some (Inl (ErrorInitializingState e))
         | Inr m1 \<Rightarrow>
             (case generateLoop k k \<lparr>maze = m1\<lparr>randomSeed := seed\<rparr>, store = h, rng = src seed\<rparr> of
                None \<Rightarrow> None
              | Some (Some e, s) \<Rightarrow> Some (Inl e)
              | Some (None, s) \<Rightarrow>
                  Some (Inr (if startCellIndex (maze s) = - 1
                             then (maze s)\<lparr>startCellIndex := 0,
                                    endCellIndex := int (length (cells (maze s))) - 1\<rparr>
                             else maze s))))"


section \<open>Wall erosion\<close>

text \<open>
  One iteration of the loops of \<^verbatim>\<open>ErodeWalls\<close>, for the corner at the bottom right of
  the cell \<open>cellIndex\<close>: \<open>origCells\<close> is the copy taken at the start of the call, \<open>cs\<close>
  the cells being changed.  The result \<open>cs\<close> stands for \<^verbatim>\<open>continue\<close>.
\<close>

definition erodeCorner :: "nat \<Rightarrow> gridMazeCell list \<Rightarrow> gridMazeCell list \<Rightarrow> nat \<Rightarrow> gridMazeCell list" where
  "erodeCorner w origCells cs cellIndex =
     (let mainCell = origCells ! cellIndex;
          (wallCount, firstWall) = (0 :: nat, 0 :: nat);
          (wallCount, firstWall) =
             (if walls mainCell 2 then (wallCount + 1, 2) else (wallCount, firstWall))
      in if walls mainCell 3 \<and> wallCount + 1 \<noteq> 1 then cs
         else
           (let (wallCount, firstWall) =
                  (if walls mainCell 3 then (wallCount + 1, 3) else (wallCount, firstWall));
                lowerCell = origCells ! (cellIndex + w + 1)
            in if walls lowerCell 0 \<and> wallCount + 1 \<noteq> 1 then cs
               else
                 (let (wallCount, firstWall) =
                        (if walls lowerCell 0 then (wallCount + 1, 0) else (wallCount, firstWall))
                  in if walls lowerCell 1 \<and> wallCount + 1 \<noteq> 1 then cs
                     else
                       (let (wallCount, firstWall) =
                              (if walls lowerCell 1 then (wallCount + 1, 1)
                               else (wallCount, firstWall))
                        in if wallCount = 0 then cs
                           else if firstWall = 0 then
                             clearWall (clearWall cs (cellIndex + w + 1) 0) (cellIndex + w) 2
                           else if firstWall = 1 then
                             clearWall (clearWall cs (cellIndex + w + 1) 1) (cellIndex + 1) 3
                           else if firstWall = 2 then
                             clearWall (clearWall cs cellIndex 2) (cellIndex + 1) 0
                           else if firstWall = 3 then
                             clearWall (clearWall cs cellIndex 3) (cellIndex + w) 1
                           else cs))))"

text \<open>\<^verbatim>\<open>ErodeWalls\<close>; the error it returns is always nil, so the model returns the maze.\<close>

definition ErodeWalls :: "GridMaze \<Rightarrow> GridMaze" where
  "ErodeWalls m =
     (let origCells = cells m
      in m\<lparr>cells :=
           foldl (\<lambda>cs row.
                    foldl (\<lambda>cs col. erodeCorner (width m) origCells cs (row * width m + col))
                      cs [0..<width m - 1])
             (cells m) [0..<height m - 1]\<rparr>)"

section \<open>The direction ranking\<close>

text \<open>
  \<^verbatim>\<open>setDirRanking\<close> writes the four entries of the slice it is given; the slice is
  returned updated.  The writes are in the order of the source.
\<close>

definition setDirRanking :: "int \<Rightarrow> int \<Rightarrow> int \<Rightarrow> int \<Rightarrow> nat list \<Rightarrow> nat list" where
  "setDirRanking currentCol currentRow targetCol targetRow dirRanking =
    (let colDiff = targetCol - currentCol;
         absColDiff = (if colDiff < 0 then - colDiff else colDiff);
         rowDiff = targetRow - currentRow;
         absRowDiff = (if rowDiff < 0 then - rowDiff else rowDiff)
     in if absRowDiff > absColDiff then
          (let d = (if rowDiff > 0 then dirRanking[0 := 3, 3 := 1]
                    else dirRanking[0 := 1, 3 := 3])
           in if colDiff > 0 then d[1 := 2, 2 := 0] else d[1 := 0, 2 := 2])
        else
          (let d = (if colDiff > 0 then dirRanking[0 := 2, 3 := 0]
                    else dirRanking[0 := 0, 3 := 2])
           in if rowDiff > 0 then d[1 := 3, 2 := 1] else d[1 := 1, 2 := 3]))"

section \<open>The solver\<close>

text \<open>
  The working state of \<^verbatim>\<open>ShowSolution\<close>.  In \<^verbatim>\<open>parentIndices\<close> the value \<^verbatim>\<open>-1\<close> of the
  source is \<open>None\<close>.  The top of \<^verbatim>\<open>dfsStack\<close> is the last element of the list, as in the
  slice.
\<close>

record solveState =
  visited :: "bool list"
  parentIndices :: "nat option list"
  dfsStack :: "nat list"
  dirRanking :: "nat list"

text \<open>
  \<^verbatim>\<open>isReachableAndUnvisited\<close> returns \<^verbatim>\<open>(false, -1)\<close>, here \<open>None\<close>, or \<^verbatim>\<open>(true, dstIndex)\<close>.
  Reading \<^verbatim>\<open>cells[currentIndex]\<close>, \<^verbatim>\<open>walls[moveDir]\<close> for a direction beyond 3, and
  \<^verbatim>\<open>visited[dstIndex]\<close> for a negative index or one beyond the slice, panics.
\<close>

definition isReachableAndUnvisited ::
  "GridMaze \<Rightarrow> nat \<Rightarrow> nat \<Rightarrow> nat \<Rightarrow> nat \<Rightarrow> bool list \<Rightarrow> error + nat option" where
  "isReachableAndUnvisited m currentIndex currentCol currentRow moveDir vis =
     (if length (cells m) \<le> currentIndex \<or> 3 < moveDir then Inl IndexOutOfRange
      else if walls (cells m ! currentIndex) moveDir then Inr None
      else if moveDir = 0 then
        (if currentCol = 0 then Inr None
         else if currentIndex < 1 \<or> length vis \<le> currentIndex - 1 then Inl IndexOutOfRange
         else if vis ! (currentIndex - 1) then Inr None else Inr (Some (currentIndex - 1)))
      else if moveDir = 1 then
        (if currentRow = 0 then Inr None
         else if currentIndex < width m \<or> length vis \<le> currentIndex - width m
         then Inl IndexOutOfRange
         else if vis ! (currentIndex - width m) then Inr None
         else Inr (Some (currentIndex - width m)))
      else if moveDir = 2 then
        (if currentCol = width m - 1 then Inr None
         else if length vis \<le> currentIndex + 1 then Inl IndexOutOfRange
         else if vis ! (currentIndex + 1) then Inr None else Inr (Some (currentIndex + 1)))
      else if moveDir = 3 then
        (if currentRow = height m - 1 then Inr None
         else if length vis \<le> currentIndex + width m then Inl IndexOutOfRange
         else if vis ! (currentIndex + width m) then Inr None
         else Inr (Some (currentIndex + width m)))
      else Inl BadDirection)"

definition clearSolution :: "GridMaze \<Rightarrow> GridMaze" where
  "clearSolution m = m\<lparr>cells := map (\<lambda>c. if state c = 1 then c\<lparr>state := 0\<rparr> else c) (cells m)\<rparr>"

text \<open>
  The loop over the ranked directions.  The second component is the move chosen so far
  (\<^verbatim>\<open>moveDst\<close> and \<^verbatim>\<open>moveDir\<close>, \<open>None\<close> while \<^verbatim>\<open>moveDst\<close> is \<^verbatim>\<open>-1\<close>).  Writing to
  \<^verbatim>\<open>visited[dstIndex]\<close> or \<^verbatim>\<open>parentIndices[dstIndex]\<close> beyond the slice panics.
\<close>

fun tryDirections ::
  "GridMaze \<Rightarrow> nat \<Rightarrow> nat \<Rightarrow> nat \<Rightarrow> nat list \<Rightarrow> solveState \<times> (nat \<times> nat) option \<Rightarrow>
   error + (solveState \<times> (nat \<times> nat) option)" where
  "tryDirections m cur col row [] sm = Inr sm"
| "tryDirections m cur col row (v # vs) (st, mv) =
     (case isReachableAndUnvisited m cur col row v (visited st) of
        Inl e \<Rightarrow> Inl e
      | Inr None \<Rightarrow> tryDirections m cur col row vs (st, mv)
      | Inr (Some dstIndex) \<Rightarrow>
          (case mv of
             None \<Rightarrow> tryDirections m cur col row vs (st, Some (dstIndex, v))
           | Some c \<Rightarrow>
               (if length (visited st) \<le> dstIndex \<or> length (parentIndices st) \<le> dstIndex
                then Inl IndexOutOfRange
                else tryDirections m cur col row vs
                 (st\<lparr>visited := (visited st)[dstIndex := True],
                     parentIndices := (parentIndices st)[dstIndex := Some cur],
                     dfsStack := dfsStack st @ [dstIndex]\<rparr>, mv))))"

text \<open>
  The inner loop, which follows one path.  It returns \<open>True\<close> when the end cell was
  reached (\<^verbatim>\<open>break DFSLoop\<close>) and \<open>False\<close> when no move is left (\<^verbatim>\<open>break\<close>).
\<close>

fun followPath ::
  "nat \<Rightarrow> GridMaze \<Rightarrow> int \<Rightarrow> int \<Rightarrow> solveState \<Rightarrow> nat \<Rightarrow> nat \<Rightarrow> nat \<Rightarrow>
   (error + (bool \<times> solveState)) option" where
  "followPath 0 m endCol endRow st currentIndex currentCol currentRow = None"
| "followPath (Suc f) m endCol endRow st currentIndex currentCol currentRow =
     (let ranking = setDirRanking (int currentCol) (int currentRow) endCol endRow (dirRanking st)
      in case tryDirections m currentIndex currentCol currentRow ranking
                (st\<lparr>dirRanking := ranking\<rparr>, None) of
           Inl e \<Rightarrow> Some (Inl e)
         | Inr (st1, None) \<Rightarrow> Some (Inr (False, st1))
         | Inr (st1, Some (moveDst, moveDir)) \<Rightarrow>
             (if length (visited st1) \<le> moveDst \<or> length (parentIndices st1) \<le> moveDst
              then Some (Inl IndexOutOfRange)
              else
                (let st2 = st1\<lparr>visited := (visited st1)[moveDst := True],
                               parentIndices := (parentIndices st1)[moveDst := Some currentIndex]\<rparr>;
                     col = (if moveDir = 0 then currentCol - 1
                            else if moveDir = 2 then currentCol + 1 else currentCol);
                     row = (if moveDir = 1 then currentRow - 1
                            else if moveDir = 3 then currentRow + 1 else currentRow)
                 in if int row = endRow \<and> int col = endCol then Some (Inr (True, st2))
                    else followPath f m endCol endRow st2 moveDst col row)))"

text \<open>The loop \<^verbatim>\<open>DFSLoop\<close>.  \<^verbatim>\<open>currentIndex % m.width\<close> panics when the width is zero.\<close>

fun dfsLoop ::
  "nat \<Rightarrow> nat \<Rightarrow> GridMaze \<Rightarrow> int \<Rightarrow> int \<Rightarrow> solveState \<Rightarrow> (error + solveState) option" where
  "dfsLoop k 0 m endCol endRow st = None"
| "dfsLoop k (Suc f) m endCol endRow st =
     (if length (dfsStack st) = 0 then Some (Inl FailedToSolveMaze)
      else if width m = 0 then Some (Inl DivisionByZero)
      else
        (let currentIndex = last (dfsStack st);
             st1 = st\<lparr>dfsStack := butlast (dfsStack st)\<rparr>;
             currentCol = currentIndex mod width m;
             currentRow = currentIndex div width m
         in if int currentRow = endRow \<and> int currentCol = endCol then Some (Inr st1)
            else
              (case followPath k m endCol endRow st1 currentIndex currentCol currentRow of
                 None \<Rightarrow> None
               | Some (Inl e) \<Rightarrow> Some (Inl e)
               | Some (Inr (True, st2)) \<Rightarrow> Some (Inr st2)
               | Some (Inr (False, st2)) \<Rightarrow> dfsLoop k f m endCol endRow st2)))"

text \<open>
  The last loop: it marks the cells along the parent indices, from the end cell, while the
  index is not negative.  Writing to \<^verbatim>\<open>cells[index]\<close> or reading \<^verbatim>\<open>parentIndices[index]\<close>
  beyond the slice panics.
\<close>

fun markPath ::
  "nat \<Rightarrow> gridMazeCell list \<Rightarrow> nat option list \<Rightarrow> nat option \<Rightarrow>
   (error + gridMazeCell list) option" where
  "markPath f cs par None = Some (Inr cs)"
| "markPath 0 cs par (Some i) = None"
| "markPath (Suc f) cs par (Some i) =
     (if length cs \<le> i \<or> length par \<le> i then Some (Inl IndexOutOfRange)
      else markPath f (cs[i := (cs ! i)\<lparr>state := 1\<rparr>]) par (par ! i))"

text \<open>
  \<^verbatim>\<open>ShowSolution\<close>.  The end column and row are computed with Go's truncating \<^verbatim>\<open>%\<close> and
  \<^verbatim>\<open>/\<close>, which panic when the width is zero; \<^verbatim>\<open>visited[m.startCellIndex]\<close> panics when the
  start index is not an index of the cells.
\<close>

definition ShowSolution :: "nat \<Rightarrow> GridMaze \<Rightarrow> bool \<Rightarrow> (error + GridMaze) option" where
  "ShowSolution k m showIt =
     (if \<not> showIt then Some (Inr (clearSolution m))
      else if width m = 0 then Some (Inl DivisionByZero)
      else
        (let endCol = endCellIndex m smod int (width m);
             endRow = endCellIndex m sdiv int (width m);
             vis = map (\<lambda>c. state c = 2) (cells m);
             par = replicate (length (cells m)) None
         in if startCellIndex m < 0 \<or> int (length (cells m)) \<le> startCellIndex m
            then Some (Inl IndexOutOfRange)
            else
              (case dfsLoop k k m endCol endRow
                      \<lparr>visited = vis[nat (startCellIndex m) := True], parentIndices = par,
                       dfsStack = [nat (startCellIndex m)], dirRanking = [0, 0, 0, 0]\<rparr> of
                 None \<Rightarrow> None
               | Some (Inl e) \<Rightarrow> Some (Inl e)
               | Some (Inr st) \<Rightarrow>
                   (case markPath k (cells m) (parentIndices st)
                           (if 0 \<le> endCellIndex m then Some (nat (endCellIndex m)) else None) of
                      None \<Rightarrow> None
                    | Some (Inl e) \<Rightarrow> Some (Inl e)
                    | Some (Inr cs) \<Rightarrow> Some (Inr (m\<lparr>cells := cs\<rparr>))))))"

section \<open>Template images\<close>

text \<open>
  A color is the result of its method \<^verbatim>\<open>RGBA()\<close>: four 32-bit values.  An image is its
  bounds and its method \<^verbatim>\<open>At\<close>.
\<close>

record color =
  red :: "32 word"
  green :: "32 word"
  blue :: "32 word"
  alpha :: "32 word"

record image =
  minX :: int
  minY :: int
  maxX :: int
  maxY :: int
  At :: "int \<Rightarrow> int \<Rightarrow> color"

text \<open>\<^verbatim>\<open>templateCellType\<close>: 0 valid, 1 excluded, 2 start candidate, 3 end candidate.\<close>

definition colorToTemplateCellType :: "color \<Rightarrow> nat" where
  "colorToTemplateCellType c =
     (let r = drop_bit 8 (red c); g = drop_bit 8 (green c); b = drop_bit 8 (blue c)
      in if r = 0 \<and> g = 0 \<and> b = 0 then 1
         else if r = 0 \<and> g > 200 \<and> b = 0 then 2
         else if r > 200 \<and> g = 0 \<and> b = 0 then 3
         else if r = 255 \<and> g = 255 \<and> b = 255 then 0
         else 0)"

text \<open>\<^verbatim>\<open>Rectangle.Canon\<close> swaps the bounds that are out of order.\<close>

definition canon :: "image \<Rightarrow> int \<times> int \<times> int \<times> int" where
  "canon pic =
     (let (x0, x1) = (if maxX pic < minX pic then (maxX pic, minX pic) else (minX pic, maxX pic));
          (y0, y1) = (if maxY pic < minY pic then (maxY pic, minY pic) else (minY pic, maxY pic))
      in (x0, y0, x1, y1))"

text \<open>
  The body of the loop over the pixels of the template: the cells, the start and the end
  candidates, and \<^verbatim>\<open>cellIndex\<close>.  The type of the pixel is the result of
  \<^verbatim>\<open>colorToTemplateCellType\<close>.  For an excluded pixel the source writes to
  \<^verbatim>\<open>cells[cellIndex]\<close>, which panics when the index is not below the number of cells.
\<close>

definition templateCell ::
  "color \<Rightarrow> gridMazeCell list \<times> int list \<times> int list \<times> int \<Rightarrow>
   error + (gridMazeCell list \<times> int list \<times> int list \<times> int)" where
  "templateCell c acc =
     (case acc of (cs, possibleStartIndices, possibleEndIndices, cellIndex0) \<Rightarrow>
        (let cellIndex = cellIndex0 + 1;
             cellType = colorToTemplateCellType c
         in if cellType = 0 then Inr (cs, possibleStartIndices, possibleEndIndices, cellIndex)
            else if cellType = 1 then
              (if cellIndex < 0 \<or> int (length cs) \<le> cellIndex then Inl IndexOutOfRange
               else Inr (cs[nat cellIndex := (cs ! nat cellIndex)\<lparr>state := 2\<rparr>],
                         possibleStartIndices, possibleEndIndices, cellIndex))
            else if cellType = 2 then
              Inr (cs, possibleStartIndices @ [cellIndex], possibleEndIndices, cellIndex)
            else if cellType = 3 then
              Inr (cs, possibleStartIndices, possibleEndIndices @ [cellIndex], cellIndex)
            else Inl (InvalidTemplatePixel cellType)))"

fun templateLoop ::
  "image \<Rightarrow> (int \<times> int) list \<Rightarrow>
   gridMazeCell list \<times> int list \<times> int list \<times> int \<Rightarrow>
   error + (gridMazeCell list \<times> int list \<times> int list \<times> int)" where
  "templateLoop pic [] acc = Inr acc"
| "templateLoop pic ((col, row) # ps) acc =
     (case templateCell (At pic col row) acc of
        Inl e \<Rightarrow> Inl e
      | Inr acc' \<Rightarrow> templateLoop pic ps acc')"

text \<open>
  \<^verbatim>\<open>NewGridMazeFromTemplate\<close>.  The pixels are visited row by row.  \<^verbatim>\<open>Dx\<close> and \<^verbatim>\<open>Dy\<close> are
  64-bit differences of the bounds.  A read of a cell of an empty list of cells panics.
\<close>

definition NewGridMazeFromTemplate ::
  "nat \<Rightarrow> (int \<Rightarrow> nat \<Rightarrow> nat) \<Rightarrow> int \<Rightarrow> image \<Rightarrow> int \<Rightarrow> (error + GridMaze) option" where
  "NewGridMazeFromTemplate k src now templatePic seed0 =
     (case canon templatePic of (x0, y0, x1, y1) \<Rightarrow>
        (case allocateMaze (sint (word_of_int (x1 - x0) :: 64 word))
                           (sint (word_of_int (y1 - y0) :: 64 word)) of
           Inl e \<Rightarrow> Some (Inl e)
         | Inr toReturn \<Rightarrow>
             (let seed = (if seed0 \<le> 0 then now else seed0);
                  pixels = concat (map (\<lambda>row. map (\<lambda>col. (col, row)) [x0..x1 - 1]) [y0..y1 - 1])
              in case templateLoop templatePic pixels (cells toReturn, [], [], - 1) of
                   Inl e \<Rightarrow> Some (Inl e)
                 | Inr (cs, possibleStartIndices, possibleEndIndices, cellIndex) \<Rightarrow>
                     (let r0 = src seed;
                          (i, r1) = Intn r0 (length possibleStartIndices);
                          (j, r2) = Intn (if possibleStartIndices \<noteq> [] then r1 else r0)
                                      (length possibleEndIndices)
                      in if possibleStartIndices = [] \<and> cs = []
                         then Some (Inl IndexOutOfRange)
                         else if possibleStartIndices = [] \<and> state (cs ! 0) = 2
                         then Some (Inl NoStartLocation)
                         else if possibleEndIndices = [] \<and> cs = []
                         then Some (Inl IndexOutOfRange)
                         else if possibleEndIndices = [] \<and> state (cs ! (length cs - 1)) = 2
                         then Some (Inl NoEndLocation)
                         else
                           (case RegenerateFromSeed k src seed
                                   (toReturn\<lparr>cells := cs,
                                      startCellIndex :=
                                        (if possibleStartIndices \<noteq> [] then possibleStartIndices ! i
                                         else 0),
                                      endCellIndex :=
                                        (if possibleEndIndices \<noteq> [] then possibleEndIndices ! j
                                         else int (length cs) - 1)\<rparr>) of
                              None \<Rightarrow> None
                            | Some (Inl e) \<Rightarrow> Some (Inl (ErrorGeneratingMaze e))
                            | Some (Inr m) \<Rightarrow> Some (Inr m))))))"

section \<open>Properties of the direction ranking\<close>

text \<open>The rank of a direction: the position at which it stands in the ranking.\<close>

definition rankOf :: "nat list \<Rightarrow> nat \<Rightarrow> nat" where
  "rankOf r d = length (takeWhile (\<lambda>x. x \<noteq> d) r)"

lemma setDirRanking_cases:
  assumes "length dr = 4"
  shows "setDirRanking cc cr tc tr dr =
    (if \<bar>tr - cr\<bar> > \<bar>tc - cc\<bar>
     then [if tr - cr > 0 then 3 else 1, if tc - cc > 0 then 2 else 0,
           if tc - cc > 0 then 0 else 2, if tr - cr > 0 then 1 else 3]
     else [if tc - cc > 0 then 2 else 0, if tr - cr > 0 then 3 else 1,
           if tr - cr > 0 then 1 else 3, if tc - cc > 0 then 0 else 2])"
proof -
  from assms obtain a b c d where dr: "dr = [a, b, c, d]"
    by (cases dr rule: list.exhaust; simp; (rename_tac x xs, case_tac xs; simp)+)
  show ?thesis
    unfolding dr setDirRanking_def Let_def abs_if by (simp split: if_splits)
qed

text \<open>
  Claim C7.  With 0 left, 1 up, 2 right, 3 down: when the row offset's magnitude exceeds
  the column offset's, up and down take ranks 0 and 3 and left and right ranks 1 and 2;
  otherwise left and right take ranks 0 and 3 and up and down ranks 1 and 2.  On each axis
  the move that reduces the offset is ranked before the other one, and with a zero offset
  left is ranked before right and up before down.
\<close>

theorem setDirRanking_ranks:
  assumes "length dr = 4"
  shows "let r = setDirRanking cc cr tc tr dr in
     (\<bar>tr - cr\<bar> > \<bar>tc - cc\<bar> \<longrightarrow>
        {rankOf r 1, rankOf r 3} = {0, 3} \<and> {rankOf r 0, rankOf r 2} = {1, 2}) \<and>
     (\<not> \<bar>tr - cr\<bar> > \<bar>tc - cc\<bar> \<longrightarrow>
        {rankOf r 0, rankOf r 2} = {0, 3} \<and> {rankOf r 1, rankOf r 3} = {1, 2}) \<and>
     (tc - cc > 0 \<longrightarrow> rankOf r 2 < rankOf r 0) \<and>
     (tc - cc \<le> 0 \<longrightarrow> rankOf r 0 < rankOf r 2) \<and>
     (tr - cr > 0 \<longrightarrow> rankOf r 3 < rankOf r 1) \<and>
     (tr - cr \<le> 0 \<longrightarrow> rankOf r 1 < rankOf r 3) \<and>
     length r = 4 \<and> set r = {0, 1, 2, 3}"
  unfolding Let_def setDirRanking_cases [OF assms] rankOf_def
  by (auto simp: doubleton_eq_iff)

theorem setDirRanking_ranks_witness:
  "length [0, 0, 0, 0 :: nat] = 4 \<and>
   (let r = setDirRanking 0 0 2 5 [0, 0, 0, 0] in
      r = [3, 2, 0, 1] \<and> rankOf r 3 < rankOf r 1 \<and> rankOf r 2 < rankOf r 0)"
proof -
  have h: "length [0, 0, 0, 0 :: nat] = 4" by simp
  have e: "setDirRanking 0 0 2 5 [0, 0, 0, 0] = [3, 2, 0, 1]"
    by (simp add: setDirRanking_def)
  from setDirRanking_ranks [OF h, where cc = 0 and cr = 0 and tc = 2 and tr = 5] h e
  show ?thesis by (simp add: Let_def)
qed

section \<open>Properties of the template classification\<close>







text \<open>
  A template of one row: a green pixel, a black one, a red one.  The colors are given by
  their 16-bit components.
\<close>

definition rgb :: "32 word \<Rightarrow> 32 word \<Rightarrow> 32 word \<Rightarrow> color" where
  "rgb r g b = \<lparr>red = r, green = g, blue = b, alpha = 0xffff\<rparr>"

definition threePixels :: image where
  "threePixels = \<lparr>minX = 0, minY = 0, maxX = 3, maxY = 1,
     At = (\<lambda>x y. if x = 0 then rgb 0 0xffff 0 else if x = 1 then rgb 0 0 0 else rgb 0xffff 0 0)\<rparr>"


section \<open>Properties of erosion\<close>

text \<open>
  The four wall segments that meet at the bottom-right corner of the cell \<open>i\<close>.  Each
  segment is given by its two sides, a side being a cell and the index of a wall flag; the
  first side is the one that \<^verbatim>\<open>ErodeWalls\<close> reads in its copy of the cells: the right and
  the bottom wall of the cell, the left and the top wall of the cell diagonally below.
\<close>

definition cornerSegments :: "nat \<Rightarrow> nat \<Rightarrow> ((nat \<times> nat) \<times> (nat \<times> nat)) list" where
  "cornerSegments w i =
     [((i, 2), (i + 1, 0)), ((i, 3), (i + w, 1)),
      ((i + w + 1, 0), (i + w, 2)), ((i + w + 1, 1), (i + 1, 3))]"

definition present :: "gridMazeCell list \<Rightarrow> (nat \<times> nat) \<times> (nat \<times> nat) \<Rightarrow> bool" where
  "present orig seg = walls (orig ! fst (fst seg)) (snd (fst seg))"

definition clearSegment :: "gridMazeCell list \<Rightarrow> (nat \<times> nat) \<times> (nat \<times> nat) \<Rightarrow> gridMazeCell list" where
  "clearSegment cs seg =
     clearWall (clearWall cs (fst (fst seg)) (snd (fst seg))) (fst (snd seg)) (snd (snd seg))"

definition cornerCells :: "GridMaze \<Rightarrow> nat list" where
  "cornerCells m =
     concat (map (\<lambda>row. map (\<lambda>col. row * width m + col) [0..<width m - 1]) [0..<height m - 1])"

lemma erodeCorner_spec:
  "erodeCorner w orig cs i =
     (case filter (present orig) (cornerSegments w i) of [seg] \<Rightarrow> clearSegment cs seg | _ \<Rightarrow> cs)"
  by (simp add: erodeCorner_def cornerSegments_def present_def clearSegment_def Let_def)

lemma foldl_rows:
  "foldl (\<lambda>cs row. foldl (\<lambda>cs col. f cs (g row col)) cs (cols)) cs0 rows =
   foldl f cs0 (concat (map (\<lambda>row. map (\<lambda>col. g row col) cols) rows))"
  by (induction rows arbitrary: cs0) (simp_all add: foldl_map)

lemma ErodeWalls_corners:
  "cells (ErodeWalls m) = foldl (erodeCorner (width m) (cells m)) (cells m) (cornerCells m)"
  unfolding ErodeWalls_def Let_def cornerCells_def
  by (simp add: foldl_rows [where f = "erodeCorner (width m) (cells m)" and g = "\<lambda>row col. row * width m + col"])

definition cornerClears :: "nat \<Rightarrow> gridMazeCell list \<Rightarrow> nat \<Rightarrow> (nat \<times> nat) list" where
  "cornerClears w orig i =
     (case filter (present orig) (cornerSegments w i) of [seg] \<Rightarrow> [fst seg, snd seg] | _ \<Rightarrow> [])"

definition clearFlags :: "gridMazeCell list \<Rightarrow> (nat \<times> nat) list \<Rightarrow> gridMazeCell list" where
  "clearFlags cs fl = foldl (\<lambda>cs (j, d). clearWall cs j d) cs fl"

lemma erodeCorner_clears: "erodeCorner w orig cs i = clearFlags cs (cornerClears w orig i)"
  by (simp add: erodeCorner_spec cornerClears_def clearFlags_def clearSegment_def
      split: list.splits)

lemma clearFlags_append: "clearFlags cs (xs @ ys) = clearFlags (clearFlags cs xs) ys"
  by (simp add: clearFlags_def)

lemma foldl_erodeCorner:
  "foldl (erodeCorner w orig) cs is = clearFlags cs (concat (map (cornerClears w orig) is))"
  by (induction "is" arbitrary: cs) (simp_all add: clearFlags_append erodeCorner_clears clearFlags_def)

lemma length_clearWall [simp]: "length (clearWall cs j d) = length cs"
  by (simp add: clearWall_def)

lemma clearWall_nth:
  "i < length cs \<Longrightarrow>
   walls (clearWall cs j d ! i) e = (walls (cs ! i) e \<and> (i, e) \<noteq> (j, d)) \<and>
   state (clearWall cs j d ! i) = state (cs ! i) \<and>
   djSet (clearWall cs j d ! i) = djSet (cs ! i)"
  by (cases "i = j") (auto simp: clearWall_def)

lemma length_clearFlags [simp]: "length (clearFlags cs fl) = length cs"
  by (induction fl arbitrary: cs) (auto simp: clearFlags_def)

lemma clearFlags_nth:
  "i < length cs \<Longrightarrow>
   walls (clearFlags cs fl ! i) e = (walls (cs ! i) e \<and> (i, e) \<notin> set fl) \<and>
   state (clearFlags cs fl ! i) = state (cs ! i) \<and>
   djSet (clearFlags cs fl ! i) = djSet (cs ! i)"
proof (induction fl arbitrary: cs)
  case Nil
  then show ?case by (simp add: clearFlags_def)
next
  case (Cons a fl)
  obtain j d where a: "a = (j, d)" by (cases a)
  have "clearFlags cs (a # fl) = clearFlags (clearWall cs j d) fl"
    by (simp add: clearFlags_def a)
  with Cons.IH [of "clearWall cs j d"] Cons.prems clearWall_nth [of i cs j d e]
  show ?case by (auto simp: a)
qed


definition erodeClears :: "GridMaze \<Rightarrow> (nat \<times> nat) list" where
  "erodeClears m = concat (map (cornerClears (width m) (cells m)) (cornerCells m))"

lemma ErodeWalls_clears: "cells (ErodeWalls m) = clearFlags (cells m) (erodeClears m)"
  by (simp add: ErodeWalls_corners foldl_erodeCorner erodeClears_def)

lemma ErodeWalls_fields [simp]:
  "width (ErodeWalls m) = width m" "height (ErodeWalls m) = height m"
  "startCellIndex (ErodeWalls m) = startCellIndex m" "endCellIndex (ErodeWalls m) = endCellIndex m"
  "neighbors (ErodeWalls m) = neighbors m" "length (cells (ErodeWalls m)) = length (cells m)"
  by (simp_all add: ErodeWalls_clears) (simp_all add: ErodeWalls_def Let_def)

lemma ErodeWalls_nth:
  "j < length (cells m) \<Longrightarrow>
   walls (cells (ErodeWalls m) ! j) d = (walls (cells m ! j) d \<and> (j, d) \<notin> set (erodeClears m)) \<and>
   state (cells (ErodeWalls m) ! j) = state (cells m ! j)"
  by (simp add: ErodeWalls_clears clearFlags_nth)

lemma cornerCells_iff:
  assumes "1 \<le> width m"
  shows "i \<in> set (cornerCells m) \<longleftrightarrow> i mod width m < width m - 1 \<and> i div width m < height m - 1"
proof
  assume "i \<in> set (cornerCells m)"
  then obtain row where r: "row < height m - 1" "row * width m \<le> i" "i < width m - 1 + row * width m"
    by (auto simp: cornerCells_def)
  define col where "col = i - row * width m"
  from r have "col < width m - 1" "i = row * width m + col"
    by (auto simp: col_def)
  with r(1) show "i mod width m < width m - 1 \<and> i div width m < height m - 1"
    by simp
next
  assume a: "i mod width m < width m - 1 \<and> i div width m < height m - 1"
  have "i = (i div width m) * width m + i mod width m" by simp
  with a have "i div width m * width m \<le> i" "i < width m - 1 + i div width m * width m"
    by linarith+
  with a show "i \<in> set (cornerCells m)"
    unfolding cornerCells_def by (auto intro!: bexI [of _ "i div width m"])
qed

lemma cornerClears_right_left:
  "(i, 2) \<in> set (cornerClears w orig c) \<longleftrightarrow> (i + 1, 0) \<in> set (cornerClears w orig c)"
  by (auto simp: cornerClears_def cornerSegments_def split: list.splits if_splits)

lemma cornerClears_bottom_top:
  "(i, 3) \<in> set (cornerClears w orig c) \<longleftrightarrow> (i + w, 1) \<in> set (cornerClears w orig c)"
  by (auto simp: cornerClears_def cornerSegments_def split: list.splits if_splits)


definition validGrid :: "GridMaze \<Rightarrow> bool" where
  "validGrid m \<longleftrightarrow>
     1 \<le> width m \<and> 1 \<le> height m \<and> length (cells m) = width m * height m \<and>
     (width m * height m = 1 \<longrightarrow> neighbors m = [])"

definition wallsSymmetric :: "GridMaze \<Rightarrow> bool" where
  "wallsSymmetric m \<longleftrightarrow>
     (\<forall>i. i + 1 < length (cells m) \<and> i mod width m < width m - 1 \<longrightarrow>
          walls (cells m ! i) 2 = walls (cells m ! (i + 1)) 0) \<and>
     (\<forall>i. i + width m < length (cells m) \<longrightarrow>
          walls (cells m ! i) 3 = walls (cells m ! (i + width m)) 1)"

lemma erodeClears_right_left:
  "(i, 2) \<in> set (erodeClears m) \<longleftrightarrow> (i + 1, 0) \<in> set (erodeClears m)"
  by (simp add: erodeClears_def cornerClears_right_left)

lemma erodeClears_bottom_top:
  "(i, 3) \<in> set (erodeClears m) \<longleftrightarrow> (i + width m, 1) \<in> set (erodeClears m)"
  by (simp add: erodeClears_def cornerClears_bottom_top)

lemma ErodeWalls_symmetric:
  assumes "wallsSymmetric m"
  shows "wallsSymmetric (ErodeWalls m)"
  unfolding wallsSymmetric_def
proof (intro conjI allI impI)
  fix i
  assume "i + 1 < length (cells (ErodeWalls m)) \<and> i mod width (ErodeWalls m) < width (ErodeWalls m) - 1"
  then have i: "i + 1 < length (cells m)" and r: "i mod width m < width m - 1" by simp_all
  from assms i r have "walls (cells m ! i) 2 = walls (cells m ! (i + 1)) 0"
    by (simp add: wallsSymmetric_def)
  with i show "walls (cells (ErodeWalls m) ! i) 2 = walls (cells (ErodeWalls m) ! (i + 1)) 0"
    using erodeClears_right_left [of i m] by (simp add: ErodeWalls_nth)
next
  fix i
  assume "i + width (ErodeWalls m) < length (cells (ErodeWalls m))"
  then have i: "i + width m < length (cells m)" by simp
  with assms have "walls (cells m ! i) 3 = walls (cells m ! (i + width m)) 1"
    by (simp add: wallsSymmetric_def)
  with i show "walls (cells (ErodeWalls m) ! i) 3 =
     walls (cells (ErodeWalls m) ! (i + width (ErodeWalls m))) 1"
    using erodeClears_bottom_top [of i m] by (simp add: ErodeWalls_nth)
qed


lemma corner_in_grid:
  assumes "validGrid m" and "c \<in> set (cornerCells m)"
  shows "c mod width m < width m - 1 \<and> c + width m + 1 < length (cells m)"
proof -
  from assms have w: "1 \<le> width m" and n: "length (cells m) = width m * height m"
    by (simp_all add: validGrid_def)
  from assms(2) w have r: "c mod width m < width m - 1" and q: "c div width m < height m - 1"
    by (simp_all add: cornerCells_iff)
  have c: "c = c div width m * width m + c mod width m" by simp
  from q have "c div width m + 2 \<le> height m" by simp
  then have "(c div width m + 2) * width m \<le> height m * width m"
    by (rule mult_le_mono1)
  then have "c div width m * width m + 2 * width m \<le> width m * height m"
    by (simp add: algebra_simps)
  with c r n show ?thesis by linarith
qed

lemma cornerClears_walled:
  assumes "\<forall>d<4. walls (orig ! j) d"
    and "walls (orig ! c) 2 = walls (orig ! (c + 1)) 0"
    and "walls (orig ! c) 3 = walls (orig ! (c + w)) 1"
    and "walls (orig ! (c + w)) 2 = walls (orig ! (c + w + 1)) 0"
    and "walls (orig ! (c + 1)) 3 = walls (orig ! (c + w + 1)) 1"
  shows "(j, d) \<notin> set (cornerClears w orig c)"
proof -
  from assms(1) have "walls (orig ! j) 0" "walls (orig ! j) 1" "walls (orig ! j) 2" "walls (orig ! j) 3"
    by simp_all
  with assms(2-) show ?thesis
    by (auto simp: cornerClears_def cornerSegments_def present_def split: list.splits if_splits)
qed

lemma erodeClears_walled:
  assumes v: "validGrid m" and s: "wallsSymmetric m" and j: "\<forall>d<4. walls (cells m ! j) d"
  shows "(j, d) \<notin> set (erodeClears m)"
proof -
  have "(j, d) \<notin> set (cornerClears (width m) (cells m) c)" if c: "c \<in> set (cornerCells m)" for c
  proof -
    from corner_in_grid [OF v c]
    have r: "c mod width m < width m - 1" and n: "c + width m + 1 < length (cells m)" by simp_all
    from r have r': "(c + width m) mod width m < width m - 1" by simp
    from s r n have 1: "walls (cells m ! c) 2 = walls (cells m ! (c + 1)) 0"
      by (simp add: wallsSymmetric_def)
    from s n have 2: "walls (cells m ! c) 3 = walls (cells m ! (c + width m)) 1"
      by (simp add: wallsSymmetric_def)
    from s r' n have 3: "walls (cells m ! (c + width m)) 2 = walls (cells m ! (c + width m + 1)) 0"
      unfolding wallsSymmetric_def by (metis add.commute)
    from s n have 4: "walls (cells m ! (c + 1)) 3 = walls (cells m ! (c + width m + 1)) 1"
      unfolding wallsSymmetric_def by (metis add.assoc add.commute)
    from cornerClears_walled [OF j 1 2 3 4] show ?thesis .
  qed
  then show ?thesis by (auto simp: erodeClears_def)
qed

text \<open>Mazes for the examples: a cell from its four flags and state, a maze from its cells.\<close>

definition cellOf :: "bool list \<Rightarrow> nat \<Rightarrow> gridMazeCell" where
  "cellOf ws st = \<lparr>walls = (\<lambda>i. ws ! i), state = st, djSet = 0\<rparr>"

definition gridOf :: "nat \<Rightarrow> nat \<Rightarrow> gridMazeCell list \<Rightarrow> GridMaze" where
  "gridOf w h cs = \<lparr>width = w, height = h, cells = cs, startCellIndex = 0,
     endCellIndex = int (length cs) - 1, neighbors = [], randomSeed = 0\<rparr>"

text \<open>
  A 2 by 2 maze whose only inner wall stands between the two cells of the bottom row.
\<close>

definition stubMaze :: GridMaze where
  "stubMaze = gridOf 2 2
     [cellOf [True, True, False, False] 0, cellOf [False, True, True, False] 0,
      cellOf [True, False, True, True] 0, cellOf [True, False, True, True] 0]"

lemma cornerClears_iff:
  "s \<in> set (cornerClears w orig i) \<longleftrightarrow>
   (\<exists>seg. filter (present orig) (cornerSegments w i) = [seg] \<and> (s = fst seg \<or> s = snd seg))"
proof (cases "filter (present orig) (cornerSegments w i)")
  case Nil
  then show ?thesis by (simp add: cornerClears_def)
next
  case (Cons x xs)
  then show ?thesis by (cases xs) (auto simp: cornerClears_def)
qed

lemma erodeClears_iff:
  "(j, d) \<in> set (erodeClears m) \<longleftrightarrow>
   (\<exists>i\<in>set (cornerCells m). \<exists>seg.
      filter (present (cells m)) (cornerSegments (width m) i) = [seg] \<and>
      ((j, d) = fst seg \<or> (j, d) = snd seg))"
  by (simp add: erodeClears_def cornerClears_iff)

text \<open>A wall flag is a side of segments of two corners only when the corners are next to each other.\<close>

lemma shared_side:
  assumes "seg \<in> set (cornerSegments w i)" and "seg' \<in> set (cornerSegments w c)"
    and "s = fst seg \<or> s = snd seg" and "s = fst seg' \<or> s = snd seg'"
  shows "c = i \<or> c = i + 1 \<or> c + 1 = i \<or> c = i + w \<or> c + w = i"
  using assms by (auto simp: cornerSegments_def)

lemma cornerSegments_less:
  assumes "validGrid m" and "i \<in> set (cornerCells m)" and "seg \<in> set (cornerSegments (width m) i)"
  shows "fst (fst seg) < length (cells m) \<and> fst (snd seg) < length (cells m)"
  using corner_in_grid [OF assms(1,2)] assms(3) by (auto simp: cornerSegments_def)

text \<open>
  The maze of 3 columns and 2 rows that generation builds when every random number drawn
  is 4: the passages form the path through the cells 1, 0, 3, 4, 5, 2, and the two inner
  walls are the right and the bottom wall of cell 1.
\<close>

definition blank32 :: GridMaze where
  "blank32 = gridOf 3 2 [zeroCell, zeroCell, zeroCell, zeroCell, zeroCell, zeroCell]"

definition pathMaze :: GridMaze where
  "pathMaze = gridOf 3 2
     [cellOf [True, True, False, False] 0, cellOf [False, True, True, True] 0,
      cellOf [True, True, True, False] 0, cellOf [True, False, False, True] 0,
      cellOf [False, True, False, True] 0, cellOf [False, False, True, True] 0]"

text \<open>A 2 by 2 maze with two inner walls: between the cells 0 and 1 and between the cells 2 and 3.\<close>

definition splitMaze :: GridMaze where
  "splitMaze = gridOf 2 2
     [cellOf [True, True, True, False] 0, cellOf [True, True, True, False] 0,
      cellOf [True, False, True, True] 0, cellOf [True, False, True, True] 0]"

text \<open>
  Claim C5.  Each iteration of \<^verbatim>\<open>ErodeWalls\<close> looks, in the copy of the cells taken before
  the call, at the four segments of one corner; when exactly one of them is present the
  iteration clears that segment on both of its sides, and otherwise it changes nothing.
  The call runs one iteration for each cell that is not in the rightmost column or the
  bottom row.  A segment between two corners belongs to both of them.  So, for the whole
  call on a maze of \<open>width * height\<close> cells: a wall flag is set after the call exactly when
  it was set before and it is not a side of the only segment present at some corner; the
  only segment present at a corner is cleared on both sides; and the segments of a corner
  are as before when neither this corner nor a corner next to it (left, right, above,
  below) has exactly one segment present.  The segments of a corner with zero, two, three
  or four segments present are not always left as they were: one of them is cleared when
  it is the only segment present at the corner next to it.
\<close>

theorem erodeWalls_call_rule:
  assumes "validGrid m"
  shows "(\<forall>cs i. erodeCorner (width m) (cells m) cs i =
      (case filter (present (cells m)) (cornerSegments (width m) i) of
         [seg] \<Rightarrow> clearSegment cs seg | _ \<Rightarrow> cs)) \<and>
   cells (ErodeWalls m) = foldl (erodeCorner (width m) (cells m)) (cells m) (cornerCells m) \<and>
   set (cornerCells m) = {i. i mod width m < width m - 1 \<and> i div width m < height m - 1} \<and>
   (\<forall>j d. j < length (cells m) \<longrightarrow>
      walls (cells (ErodeWalls m) ! j) d =
        (walls (cells m ! j) d \<and>
         \<not> (\<exists>i\<in>set (cornerCells m). \<exists>seg.
              filter (present (cells m)) (cornerSegments (width m) i) = [seg] \<and>
              ((j, d) = fst seg \<or> (j, d) = snd seg)))) \<and>
   (\<forall>i\<in>set (cornerCells m). \<forall>seg.
      filter (present (cells m)) (cornerSegments (width m) i) = [seg] \<longrightarrow>
      \<not> walls (cells (ErodeWalls m) ! fst (fst seg)) (snd (fst seg)) \<and>
      \<not> walls (cells (ErodeWalls m) ! fst (snd seg)) (snd (snd seg))) \<and>
   (\<forall>i\<in>set (cornerCells m).
      (\<forall>c\<in>set (cornerCells m).
         c = i \<or> c = i + 1 \<or> c + 1 = i \<or> c = i + width m \<or> c + width m = i \<longrightarrow>
         length (filter (present (cells m)) (cornerSegments (width m) c)) \<noteq> 1) \<longrightarrow>
      (\<forall>seg\<in>set (cornerSegments (width m) i).
         walls (cells (ErodeWalls m) ! fst (fst seg)) (snd (fst seg)) =
           walls (cells m ! fst (fst seg)) (snd (fst seg)) \<and>
         walls (cells (ErodeWalls m) ! fst (snd seg)) (snd (snd seg)) =
           walls (cells m ! fst (snd seg)) (snd (snd seg))))"
proof (intro conjI allI impI ballI)
  from assms have w: "1 \<le> width m" by (simp add: validGrid_def)
  show "cells (ErodeWalls m) = foldl (erodeCorner (width m) (cells m)) (cells m) (cornerCells m)"
    by (rule ErodeWalls_corners)
  show "set (cornerCells m) = {i. i mod width m < width m - 1 \<and> i div width m < height m - 1}"
    using cornerCells_iff [OF w] by blast
  show "erodeCorner (width m) (cells m) cs i =
      (case filter (present (cells m)) (cornerSegments (width m) i) of
         [seg] \<Rightarrow> clearSegment cs seg | _ \<Rightarrow> cs)" for cs i
    by (rule erodeCorner_spec)
  show "walls (cells (ErodeWalls m) ! j) d =
        (walls (cells m ! j) d \<and>
         \<not> (\<exists>i\<in>set (cornerCells m). \<exists>seg.
              filter (present (cells m)) (cornerSegments (width m) i) = [seg] \<and>
              ((j, d) = fst seg \<or> (j, d) = snd seg)))"
    if "j < length (cells m)" for j d
    using ErodeWalls_nth [OF that, of d] by (simp add: erodeClears_iff)
  have sole: "\<not> walls (cells (ErodeWalls m) ! fst s) (snd s)"
    if i: "i \<in> set (cornerCells m)"
      and f: "filter (present (cells m)) (cornerSegments (width m) i) = [seg]"
      and s: "s = fst seg \<or> s = snd seg" for i seg s
  proof -
    have "seg \<in> set (filter (present (cells m)) (cornerSegments (width m) i))"
      by (simp add: f)
    then have "seg \<in> set (cornerSegments (width m) i)" by simp
    from cornerSegments_less [OF assms i this] s have l: "fst s < length (cells m)" by auto
    from f s have "(fst s, snd s) \<in> set (cornerClears (width m) (cells m) i)"
      by (simp add: cornerClears_iff)
    with i have "(fst s, snd s) \<in> set (erodeClears m)"
      by (auto simp: erodeClears_def)
    with ErodeWalls_nth [OF l, of "snd s"] show ?thesis by simp
  qed
  show "\<not> walls (cells (ErodeWalls m) ! fst (fst seg)) (snd (fst seg))"
    if "i \<in> set (cornerCells m)"
      and "filter (present (cells m)) (cornerSegments (width m) i) = [seg]" for i seg
    using sole [OF that, of "fst seg"] by simp
  show "\<not> walls (cells (ErodeWalls m) ! fst (snd seg)) (snd (snd seg))"
    if "i \<in> set (cornerCells m)"
      and "filter (present (cells m)) (cornerSegments (width m) i) = [seg]" for i seg
    using sole [OF that, of "snd seg"] by simp
  have keep: "walls (cells (ErodeWalls m) ! fst s) (snd s) = walls (cells m ! fst s) (snd s)"
    if i: "i \<in> set (cornerCells m)"
      and n: "\<forall>c\<in>set (cornerCells m).
         c = i \<or> c = i + 1 \<or> c + 1 = i \<or> c = i + width m \<or> c + width m = i \<longrightarrow>
         length (filter (present (cells m)) (cornerSegments (width m) c)) \<noteq> 1"
      and seg: "seg \<in> set (cornerSegments (width m) i)"
      and s: "s = fst seg \<or> s = snd seg" for i seg s
  proof -
    from cornerSegments_less [OF assms i seg] s have l: "fst s < length (cells m)" by auto
    have "(fst s, snd s) \<notin> set (erodeClears m)"
    proof
      assume "(fst s, snd s) \<in> set (erodeClears m)"
      then obtain c seg' where c: "c \<in> set (cornerCells m)"
        and f: "filter (present (cells m)) (cornerSegments (width m) c) = [seg']"
        and s': "s = fst seg' \<or> s = snd seg'"
        unfolding erodeClears_iff by auto
      have "seg' \<in> set (filter (present (cells m)) (cornerSegments (width m) c))"
        by (simp add: f)
      then have "seg' \<in> set (cornerSegments (width m) c)" by simp
      from shared_side [OF seg this s s']
      have "c = i \<or> c = i + 1 \<or> c + 1 = i \<or> c = i + width m \<or> c + width m = i" .
      with n c have "length (filter (present (cells m)) (cornerSegments (width m) c)) \<noteq> 1"
        by blast
      with f show False by simp
    qed
    with ErodeWalls_nth [OF l, of "snd s"] show ?thesis by simp
  qed
  show "walls (cells (ErodeWalls m) ! fst (fst seg)) (snd (fst seg)) =
           walls (cells m ! fst (fst seg)) (snd (fst seg))"
    if "i \<in> set (cornerCells m)"
      and "\<forall>c\<in>set (cornerCells m).
         c = i \<or> c = i + 1 \<or> c + 1 = i \<or> c = i + width m \<or> c + width m = i \<longrightarrow>
         length (filter (present (cells m)) (cornerSegments (width m) c)) \<noteq> 1"
      and "seg \<in> set (cornerSegments (width m) i)" for i seg
    using keep [OF that, of "fst seg"] by simp
  show "walls (cells (ErodeWalls m) ! fst (snd seg)) (snd (snd seg)) =
           walls (cells m ! fst (snd seg)) (snd (snd seg))"
    if "i \<in> set (cornerCells m)"
      and "\<forall>c\<in>set (cornerCells m).
         c = i \<or> c = i + 1 \<or> c + 1 = i \<or> c = i + width m \<or> c + width m = i \<longrightarrow>
         length (filter (present (cells m)) (cornerSegments (width m) c)) \<noteq> 1"
      and "seg \<in> set (cornerSegments (width m) i)" for i seg
    using keep [OF that, of "snd seg"] by simp
qed

lemma pathMaze_corners:
  "validGrid pathMaze \<and> cornerCells pathMaze = [0, 1] \<and>
   filter (present (cells pathMaze)) (cornerSegments (width pathMaze) 0) = [((4, 1), (1, 3))] \<and>
   filter (present (cells pathMaze)) (cornerSegments (width pathMaze) 1) =
     [((1, 2), (2, 0)), ((1, 3), (4, 1))]"
  by (simp add: validGrid_def pathMaze_def gridOf_def cellOf_def cornerCells_def
      cornerSegments_def present_def upt_conv_Cons)

lemma splitMaze_corners:
  "validGrid splitMaze \<and> cornerCells splitMaze = [0] \<and>
   filter (present (cells splitMaze)) (cornerSegments (width splitMaze) 0) =
     [((0, 2), (1, 0)), ((3, 0), (2, 2))]"
  by (simp add: validGrid_def splitMaze_def gridOf_def cellOf_def cornerCells_def
      cornerSegments_def present_def upt_conv_Cons)

theorem erodeWalls_call_rule_witness:
  "validGrid pathMaze \<and> cornerCells pathMaze = [0, 1] \<and>
   filter (present (cells pathMaze)) (cornerSegments (width pathMaze) 0) = [((4, 1), (1, 3))] \<and>
   \<not> walls (cells (ErodeWalls pathMaze) ! 4) 1 \<and> \<not> walls (cells (ErodeWalls pathMaze) ! 1) 3 \<and>
   walls (cells (ErodeWalls pathMaze) ! 1) 2 \<and>
   validGrid splitMaze \<and> cornerCells splitMaze = [0] \<and>
   length (filter (present (cells splitMaze)) (cornerSegments (width splitMaze) 0)) = 2 \<and>
   walls (cells (ErodeWalls splitMaze) ! 0) 2 \<and> walls (cells (ErodeWalls splitMaze) ! 3) 0"
proof -
  note p = pathMaze_corners
  note q = splitMaze_corners
  from p have v: "validGrid pathMaze" by simp
  from q have v': "validGrid splitMaze" by simp
  note r = erodeWalls_call_rule [OF v]
  note r' = erodeWalls_call_rule [OF v']
  have l: "1 < length (cells pathMaze)" "walls (cells pathMaze ! 1) 2"
    by (simp_all add: pathMaze_def gridOf_def cellOf_def)
  have l': "walls (cells splitMaze ! 0) 2" "walls (cells splitMaze ! 3) 0"
    by (simp_all add: splitMaze_def gridOf_def cellOf_def)
  from p have i0: "0 \<in> set (cornerCells pathMaze)"
    and f0: "filter (present (cells pathMaze)) (cornerSegments (width pathMaze) 0) = [((4, 1), (1, 3))]"
    by simp_all
  from r [THEN conjunct2, THEN conjunct2, THEN conjunct2, THEN conjunct2, THEN conjunct1,
      THEN bspec, OF i0, THEN spec, THEN mp, OF f0]
  have 1: "\<not> walls (cells (ErodeWalls pathMaze) ! 4) 1 \<and> \<not> walls (cells (ErodeWalls pathMaze) ! 1) 3"
    by simp
  from r [THEN conjunct2, THEN conjunct2, THEN conjunct2, THEN conjunct1,
      THEN spec, THEN spec, THEN mp, OF l(1), of 2] l(2) p
  have 2: "walls (cells (ErodeWalls pathMaze) ! 1) 2" by simp
  from q have i0': "0 \<in> set (cornerCells splitMaze)" by simp
  from q have n: "\<forall>c\<in>set (cornerCells splitMaze).
         c = 0 \<or> c = 0 + 1 \<or> c + 1 = 0 \<or> c = 0 + width splitMaze \<or> c + width splitMaze = 0 \<longrightarrow>
         length (filter (present (cells splitMaze)) (cornerSegments (width splitMaze) c)) \<noteq> 1"
    by simp
  have s0: "((0, 2), (1, 0)) \<in> set (cornerSegments (width splitMaze) 0)"
    and s3: "((3, 0), (2, 2)) \<in> set (cornerSegments (width splitMaze) 0)"
    by (simp_all add: cornerSegments_def splitMaze_def gridOf_def)
  note k = r' [THEN conjunct2, THEN conjunct2, THEN conjunct2, THEN conjunct2, THEN conjunct2,
      THEN bspec, OF i0', THEN mp, OF n]
  from k [THEN bspec, OF s0] k [THEN bspec, OF s3] l'
  have 3: "walls (cells (ErodeWalls splitMaze) ! 0) 2 \<and> walls (cells (ErodeWalls splitMaze) ! 3) 0"
    by simp
  from p q 1 2 3 show ?thesis by simp
qed

text \<open>
  The maze \<open>pathMaze\<close> is what generation returns, from the maze of 3 columns and 2 rows
  with no wall set, when every random number drawn is 4.  At the corner of its cell 1 two
  segments are present, the right and the bottom wall of cell 1.  The bottom wall is also
  the only segment present at the corner of cell 0, and the call clears it.
\<close>

theorem erodeWalls_shared_segment:
  "(case RegenerateFromSeed 13 (\<lambda>s i. 4) 1 blank32 of
      Some (Inr m') \<Rightarrow>
        map (\<lambda>c. map (walls c) [0, 1, 2, 3]) (cells m') =
        map (\<lambda>c. map (walls c) [0, 1, 2, 3]) (cells pathMaze)
    | _ \<Rightarrow> False) \<and>
   1 \<in> set (cornerCells pathMaze) \<and>
   length (filter (present (cells pathMaze)) (cornerSegments (width pathMaze) 1)) = 2 \<and>
   ((1, 3), (4, 1)) \<in> set (cornerSegments (width pathMaze) 1) \<and>
   walls (cells pathMaze ! 1) 3 \<and> walls (cells pathMaze ! 4) 1 \<and>
   \<not> walls (cells (ErodeWalls pathMaze) ! 1) 3 \<and> \<not> walls (cells (ErodeWalls pathMaze) ! 4) 1"
proof -
  have g: "case RegenerateFromSeed 13 (\<lambda>s i. 4) 1 blank32 of
      Some (Inr m') \<Rightarrow>
        map (\<lambda>c. map (walls c) [0, 1, 2, 3]) (cells m') =
        map (\<lambda>c. map (walls c) [0, 1, 2, 3]) (cells pathMaze)
    | _ \<Rightarrow> False"
    by code_simp
  have c: "erodeClears pathMaze = [(4, 1), (1, 3)]"
    using pathMaze_corners by (simp add: erodeClears_def cornerClears_def)
  have l: "1 < length (cells pathMaze)" "4 < length (cells pathMaze)"
    "walls (cells pathMaze ! 1) 3" "walls (cells pathMaze ! 4) 1"
    "((1, 3), (4, 1)) \<in> set (cornerSegments (width pathMaze) 1)"
    by (simp_all add: pathMaze_def gridOf_def cellOf_def cornerSegments_def)
  from ErodeWalls_nth [OF l(1), of 3] ErodeWalls_nth [OF l(2), of 1] c
  have "\<not> walls (cells (ErodeWalls pathMaze) ! 1) 3 \<and> \<not> walls (cells (ErodeWalls pathMaze) ! 4) 1"
    by simp
  with g l pathMaze_corners show ?thesis by simp
qed

section \<open>Properties of the disjoint sets\<close>

text \<open>
  \<open>rootOf h s r\<close>: following the parent pointers from the node \<open>s\<close> ends at the root \<open>r\<close>.
\<close>

inductive rootOf :: "disjointSet list \<Rightarrow> nat \<Rightarrow> nat \<Rightarrow> bool" for h where
  root: "parent (h ! s) = s \<Longrightarrow> rootOf h s s"
| step: "parent (h ! s) \<noteq> s \<Longrightarrow> rootOf h (parent (h ! s)) r \<Longrightarrow> rootOf h s r"

definition rep :: "disjointSet list \<Rightarrow> nat \<Rightarrow> nat" where
  "rep h s = (THE r. rootOf h s r)"

definition rootCount :: "nat \<Rightarrow> disjointSet list \<Rightarrow> nat" where
  "rootCount n h = card {j. j < n \<and> parent (h ! j) = j}"

text \<open>
  The invariant of a store of \<open>n\<close> nodes: parents are nodes, ranks grow strictly towards
  the root, and a rank plus the number of roots is at most \<open>n\<close>.
\<close>

definition djInv :: "nat \<Rightarrow> disjointSet list \<Rightarrow> bool" where
  "djInv n h \<longleftrightarrow>
     length h = n \<and>
     (\<forall>i<n. parent (h ! i) < n \<and>
            (parent (h ! i) \<noteq> i \<longrightarrow> rank (h ! i) < rank (h ! parent (h ! i))) \<and>
            rank (h ! i) + rootCount n h \<le> n)"

definition compressed :: "disjointSet list \<Rightarrow> disjointSet list \<Rightarrow> bool" where
  "compressed h h' \<longleftrightarrow>
     length h' = length h \<and>
     (\<forall>i<length h. rank (h' ! i) = rank (h ! i) \<and>
        (parent (h' ! i) = parent (h ! i) \<or>
         (parent (h ! i) \<noteq> i \<and> rootOf h i (parent (h' ! i)))))"

lemma rootOf_det: "rootOf h s r \<Longrightarrow> rootOf h s r' \<Longrightarrow> r = r'"
proof (induction arbitrary: r' rule: rootOf.induct)
  case (root s)
  from root.prems root.hyps show ?case by (cases rule: rootOf.cases) auto
next
  case (step s r)
  from step.prems step.hyps(1) have "rootOf h (parent (h ! s)) r'"
    by (cases rule: rootOf.cases) auto
  then show ?case by (rule step.IH)
qed

lemma rootOf_is_root: "rootOf h s r \<Longrightarrow> parent (h ! r) = r"
  by (induction rule: rootOf.induct) auto

lemma rootOf_bound: "rootOf h s r \<Longrightarrow> djInv n h \<Longrightarrow> s < n \<Longrightarrow> r < n"
  by (induction rule: rootOf.induct) (auto simp: djInv_def)

lemma rootOf_rank:
  "rootOf h s r \<Longrightarrow> djInv n h \<Longrightarrow> s < n \<Longrightarrow> s \<noteq> r \<Longrightarrow> rank (h ! s) < rank (h ! r)"
proof (induction rule: rootOf.induct)
  case (root s)
  then show ?case by simp
next
  case (step s r)
  from step.prems have p: "parent (h ! s) < n" and
    lt: "rank (h ! s) < rank (h ! parent (h ! s))"
    using step.hyps(1) by (auto simp: djInv_def)
  show ?case
  proof (cases "parent (h ! s) = r")
    case True
    with lt show ?thesis by simp
  next
    case False
    from step.IH [OF step.prems(1) p False] lt show ?thesis by simp
  qed
qed

lemma rootOf_ex:
  assumes "djInv n h" and "s < n"
  shows "\<exists>r. rootOf h s r"
  using assms(2)
proof (induction "n - rank (h ! s)" arbitrary: s rule: less_induct)
  case less
  show ?case
  proof (cases "parent (h ! s) = s")
    case True
    then show ?thesis by (auto intro: rootOf.root)
  next
    case False
    from assms(1) less.prems False
    have p: "parent (h ! s) < n" and lt: "rank (h ! s) < rank (h ! parent (h ! s))"
      by (auto simp: djInv_def)
    from assms(1) p have "rank (h ! parent (h ! s)) \<le> n" by (auto simp: djInv_def)
    with lt have "n - rank (h ! parent (h ! s)) < n - rank (h ! s)" by simp
    from less.hyps [OF this p] False show ?thesis by (auto intro: rootOf.step)
  qed
qed

lemma rep_eq: "rootOf h s r \<Longrightarrow> rep h s = r"
  unfolding rep_def by (rule the_equality) (auto dest: rootOf_det)

lemma rep_rootOf: "djInv n h \<Longrightarrow> s < n \<Longrightarrow> rootOf h s (rep h s)"
  using rootOf_ex [of n h s] by (auto simp: rep_eq)

lemma rep_less: "djInv n h \<Longrightarrow> s < n \<Longrightarrow> rep h s < n"
  using rep_rootOf rootOf_bound by blast

lemma rep_root: "djInv n h \<Longrightarrow> s < n \<Longrightarrow> parent (h ! rep h s) = rep h s"
  using rep_rootOf rootOf_is_root by blast

lemma rep_of_root: "parent (h ! s) = s \<Longrightarrow> rep h s = s"
  by (simp add: rep_eq rootOf.root)

lemma rep_rep: "djInv n h \<Longrightarrow> s < n \<Longrightarrow> rep h (rep h s) = rep h s"
  by (simp add: rep_of_root rep_root)

lemma compressed_refl: "compressed h h"
  by (simp add: compressed_def)

lemma findSet_compressed:
  assumes "djInv n h" and "s < n" and "n < k + rank (h ! s)"
  shows "\<exists>h'. findSet k h s = Some (rep h s, h') \<and> compressed h h'"
  using assms(2,3)
proof (induction k arbitrary: s)
  case 0
  with assms(1) show ?case by (auto simp: djInv_def)
next
  case (Suc k)
  show ?case
  proof (cases "parent (h ! s) = s")
    case True
    then show ?thesis by (auto simp: rep_of_root compressed_refl)
  next
    case False
    let ?p = "parent (h ! s)"
    from assms(1) Suc.prems False
    have p: "?p < n" and lt: "rank (h ! s) < rank (h ! ?p)"
      by (auto simp: djInv_def)
    from lt Suc.prems have "n < k + rank (h ! ?p)" by simp
    from Suc.IH [OF p this] obtain h1 where
      f: "findSet k h ?p = Some (rep h ?p, h1)" and c: "compressed h h1" by blast
    have r: "rootOf h s (rep h ?p)"
      using False rep_rootOf [OF assms(1) p] by (rule rootOf.step)
    then have e: "rep h s = rep h ?p" by (rule rep_eq)
    from assms(1) have n: "length h = n" by (simp add: djInv_def)
    have "compressed h (h1[s := (h1 ! s)\<lparr>parent := rep h ?p\<rparr>])"
      unfolding compressed_def
    proof (intro conjI allI impI)
      show "length (h1[s := (h1 ! s)\<lparr>parent := rep h ?p\<rparr>]) = length h"
        using c by (simp add: compressed_def)
    next
      fix i assume i: "i < length h"
      from c i have ci: "rank (h1 ! i) = rank (h ! i)"
        "parent (h1 ! i) = parent (h ! i) \<or> parent (h ! i) \<noteq> i \<and> rootOf h i (parent (h1 ! i))"
        and l: "length h1 = length h"
        by (auto simp: compressed_def)
      show "rank (h1[s := (h1 ! s)\<lparr>parent := rep h ?p\<rparr>] ! i) = rank (h ! i)"
        using ci(1) i l by (cases "i = s") auto
      show "parent (h1[s := (h1 ! s)\<lparr>parent := rep h ?p\<rparr>] ! i) = parent (h ! i) \<or>
            parent (h ! i) \<noteq> i \<and> rootOf h i (parent (h1[s := (h1 ! s)\<lparr>parent := rep h ?p\<rparr>] ! i))"
        using ci(2) i l r False by (cases "i = s") auto
    qed
    with f e False show ?thesis by auto
  qed
qed

lemma compressed_roots:
  assumes "djInv n h" and "compressed h h'" and "i < n"
  shows "parent (h' ! i) = i \<longleftrightarrow> parent (h ! i) = i"
proof -
  from assms have "parent (h' ! i) = parent (h ! i) \<or>
      parent (h ! i) \<noteq> i \<and> rootOf h i (parent (h' ! i))"
    by (auto simp: compressed_def djInv_def)
  then show ?thesis
  proof
    assume "parent (h' ! i) = parent (h ! i)"
    then show ?thesis by simp
  next
    assume a: "parent (h ! i) \<noteq> i \<and> rootOf h i (parent (h' ! i))"
    then have "parent (h ! parent (h' ! i)) = parent (h' ! i)" by (auto dest: rootOf_is_root)
    with a show ?thesis by auto
  qed
qed

lemma compressed_rootCount:
  assumes "djInv n h" and "compressed h h'"
  shows "rootCount n h' = rootCount n h"
proof -
  have "{j. j < n \<and> parent (h' ! j) = j} = {j. j < n \<and> parent (h ! j) = j}"
    using compressed_roots [OF assms] by auto
  then show ?thesis by (simp add: rootCount_def)
qed

lemma compressed_djInv:
  assumes "djInv n h" and "compressed h h'"
  shows "djInv n h'"
  unfolding djInv_def
proof (intro conjI allI impI)
  from assms show "length h' = n" by (simp add: djInv_def compressed_def)
next
  fix i assume i: "i < n"
  from assms i have ci: "rank (h' ! i) = rank (h ! i)"
    "parent (h' ! i) = parent (h ! i) \<or> parent (h ! i) \<noteq> i \<and> rootOf h i (parent (h' ! i))"
    by (auto simp: compressed_def djInv_def)
  from assms(1) i have hi: "parent (h ! i) < n"
    "parent (h ! i) \<noteq> i \<longrightarrow> rank (h ! i) < rank (h ! parent (h ! i))"
    "rank (h ! i) + rootCount n h \<le> n"
    by (auto simp: djInv_def)
  show p: "parent (h' ! i) < n"
    using ci(2) hi(1) rootOf_bound [OF _ assms(1) i] by auto
  from assms p have rp: "rank (h' ! parent (h' ! i)) = rank (h ! parent (h' ! i))"
    by (auto simp: compressed_def djInv_def)
  show "rank (h' ! i) < rank (h' ! parent (h' ! i))" if ne: "parent (h' ! i) \<noteq> i"
  proof -
    from ci(2) show ?thesis
    proof
      assume "parent (h' ! i) = parent (h ! i)"
      with ne hi(2) ci(1) rp show ?thesis by simp
    next
      assume "parent (h ! i) \<noteq> i \<and> rootOf h i (parent (h' ! i))"
      with rootOf_rank [OF _ assms(1) i, of "parent (h' ! i)"] ne ci(1) rp
      show ?thesis by auto
    qed
  qed
  show "rank (h' ! i) + rootCount n h' \<le> n"
    using hi(3) ci(1) compressed_rootCount [OF assms] by simp
qed

lemma compressed_rootOf:
  assumes "djInv n h" and "compressed h h'"
  shows "rootOf h s r \<Longrightarrow> s < n \<Longrightarrow> rootOf h' s r"
proof (induction rule: rootOf.induct)
  case (root s)
  with compressed_roots [OF assms, of s] show ?case by (auto intro: rootOf.root)
next
  case (step s r)
  from assms(1) step.prems have p: "parent (h ! s) < n" by (auto simp: djInv_def)
  from step.IH [OF p] have ih: "rootOf h' (parent (h ! s)) r" .
  from step.hyps(1) step.prems compressed_roots [OF assms, of s]
  have ne: "parent (h' ! s) \<noteq> s" by auto
  from assms step.prems have "parent (h' ! s) = parent (h ! s) \<or>
      parent (h ! s) \<noteq> s \<and> rootOf h s (parent (h' ! s))"
    by (auto simp: compressed_def djInv_def)
  then show ?case
  proof
    assume "parent (h' ! s) = parent (h ! s)"
    with ih ne show ?thesis by (auto intro: rootOf.step)
  next
    assume a: "parent (h ! s) \<noteq> s \<and> rootOf h s (parent (h' ! s))"
    have "rootOf h s r" using step.hyps by (auto intro: rootOf.step)
    with a have e: "parent (h' ! s) = r" by (auto dest: rootOf_det)
    from a e have "parent (h ! r) = r" by (auto dest: rootOf_is_root)
    moreover from a e have "r < n" using rootOf_bound [OF _ assms(1) step.prems] by auto
    ultimately have "parent (h' ! r) = r" using compressed_roots [OF assms, of r] by simp
    then have "rootOf h' r r" by (rule rootOf.root)
    with ne e show ?thesis by (auto intro: rootOf.step)
  qed
qed

lemma compressed_rep:
  assumes "djInv n h" and "compressed h h'" and "s < n"
  shows "rep h' s = rep h s"
  using compressed_rootOf [OF assms(1,2) rep_rootOf [OF assms(1,3)] assms(3)]
  by (rule rep_eq)

text \<open>What \<^verbatim>\<open>findSet\<close> does on a store that satisfies the invariant.\<close>

lemma findSet_ok:
  assumes "djInv n h" and "s < n" and "n < k"
  shows "\<exists>h'. findSet k h s = Some (rep h s, h') \<and> djInv n h' \<and>
           rootCount n h' = rootCount n h \<and> (\<forall>t<n. rep h' t = rep h t)"
proof -
  from assms(3) have "n < k + rank (h ! s)" by simp
  from findSet_compressed [OF assms(1,2) this] obtain h' where
    "findSet k h s = Some (rep h s, h')" "compressed h h'" by blast
  with assms(1) show ?thesis
    by (auto simp: compressed_djInv compressed_rootCount compressed_rep)
qed

text \<open>Linking the root \<open>c\<close> below the root \<open>p\<close>.\<close>

lemma link_ok:
  assumes inv: "djInv n h"
    and c: "c < n" "parent (h ! c) = c" and p: "p < n" "parent (h ! p) = p" and ne: "c \<noteq> p"
    and len: "length h' = n"
    and pc: "parent (h' ! c) = p"
    and po: "\<forall>i<n. i \<noteq> c \<longrightarrow> parent (h' ! i) = parent (h ! i)"
    and ro: "\<forall>i<n. i \<noteq> p \<longrightarrow> rank (h' ! i) = rank (h ! i)"
    and rp: "rank (h ! p) \<le> rank (h' ! p)" "rank (h' ! p) \<le> rank (h ! p) + 1"
    and rc: "rank (h' ! c) < rank (h' ! p)"
  shows "djInv n h' \<and> rootCount n h' + 1 = rootCount n h \<and>
         (\<forall>s<n. rep h' s = (if rep h s = c then p else rep h s))"
proof (intro conjI allI impI)
  have roots: "{j. j < n \<and> parent (h' ! j) = j} = {j. j < n \<and> parent (h ! j) = j} - {c}"
    using po pc ne by auto
  have fin: "finite {j. j < n \<and> parent (h ! j) = j}" by simp
  have cin: "c \<in> {j. j < n \<and> parent (h ! j) = j}" using c by simp
  from fin cin have "card ({j. j < n \<and> parent (h ! j) = j} - {c}) + 1 =
      card {j. j < n \<and> parent (h ! j) = j}"
    using card.remove [OF fin cin] by simp
  with roots show rcnt: "rootCount n h' + 1 = rootCount n h"
    by (simp add: rootCount_def)
  show "djInv n h'"
    unfolding djInv_def
  proof (intro conjI allI impI)
    show "length h' = n" by (rule len)
  next
    fix i assume i: "i < n"
    from inv i have hi: "parent (h ! i) < n"
      "parent (h ! i) \<noteq> i \<longrightarrow> rank (h ! i) < rank (h ! parent (h ! i))"
      "rank (h ! i) + rootCount n h \<le> n"
      by (auto simp: djInv_def)
    show "parent (h' ! i) < n"
      using po pc p(1) hi(1) i by (cases "i = c") auto
    have le: "rank (h ! j) \<le> rank (h' ! j)" "rank (h' ! j) \<le> rank (h ! j) + 1" if "j < n" for j
      using ro rp that by (cases "j = p"; simp)+
    show "rank (h' ! i) < rank (h' ! parent (h' ! i))" if np: "parent (h' ! i) \<noteq> i"
    proof (cases "i = c")
      case True
      with rc pc show ?thesis by simp
    next
      case False
      with po i have e: "parent (h' ! i) = parent (h ! i)" by simp
      with np p(2) have "i \<noteq> p" by auto
      with ro i have "rank (h' ! i) = rank (h ! i)" by simp
      moreover from e np hi(2) have "rank (h ! i) < rank (h ! parent (h ! i))" by simp
      moreover from le(1) [OF hi(1)] have "rank (h ! parent (h ! i)) \<le> rank (h' ! parent (h ! i))" .
      ultimately show ?thesis using e by simp
    qed
    show "rank (h' ! i) + rootCount n h' \<le> n"
      using le(2) [OF i] hi(3) rcnt by simp
  qed
next
  fix s assume s: "s < n"
  have "rootOf h s r \<Longrightarrow> s < n \<Longrightarrow> rootOf h' s (if r = c then p else r)" for s r
  proof (induction rule: rootOf.induct)
    case (root s)
    show ?case
    proof (cases "s = c")
      case True
      have "parent (h' ! p) = p" using po p ne by simp
      then have "rootOf h' p p" by (rule rootOf.root)
      with pc ne True show ?thesis by (auto intro: rootOf.step)
    next
      case False
      with po root have "parent (h' ! s) = s" by simp
      with False show ?thesis by (auto intro: rootOf.root)
    qed
  next
    case (step s r)
    from step.hyps(1) c(2) have sc: "s \<noteq> c" by auto
    with po step.prems have e: "parent (h' ! s) = parent (h ! s)" by simp
    from inv step.prems have "parent (h ! s) < n" by (auto simp: djInv_def)
    from step.IH [OF this] e step.hyps(1) show ?case by (auto intro: rootOf.step)
  qed
  from this [OF rep_rootOf [OF inv s] s]
  show "rep h' s = (if rep h s = c then p else rep h s)" by (rule rep_eq)
qed

lemma union_ds_ok:
  assumes inv: "djInv n h" and a: "a < n" and b: "b < n" and ne: "rep h a \<noteq> rep h b"
    and k: "n < k"
  shows "\<exists>h' c p. union_ds k h a b = Some h' \<and> djInv n h' \<and>
     rootCount n h' + 1 = rootCount n h \<and> {c, p} = {rep h a, rep h b} \<and>
     (\<forall>s<n. rep h' s = (if rep h s = c then p else rep h s))"
proof -
  let ?x = "rep h a" and ?y = "rep h b"
  from findSet_ok [OF inv a k] obtain h1 where
    f1: "findSet k h a = Some (?x, h1)" and i1: "djInv n h1"
    and c1: "rootCount n h1 = rootCount n h" and r1: "\<forall>t<n. rep h1 t = rep h t" by blast
  from findSet_ok [OF i1 b k] r1 b obtain h2 where
    f2: "findSet k h1 b = Some (?y, h2)" and i2: "djInv n h2"
    and c2: "rootCount n h2 = rootCount n h1" and r2: "\<forall>t<n. rep h2 t = rep h1 t" by auto
  from r1 r2 have r: "\<forall>t<n. rep h2 t = rep h t" by simp
  have x: "?x < n" and y: "?y < n" using rep_less [OF inv] a b by simp_all
  have px: "parent (h2 ! ?x) = ?x" using rep_root [OF i2 a] r a by simp
  have py: "parent (h2 ! ?y) = ?y" using rep_root [OF i2 b] r b by simp
  from i2 have len: "length h2 = n" by (simp add: djInv_def)
  show ?thesis
  proof (cases "rank (h2 ! ?x) > rank (h2 ! ?y)")
    case True
    define h' where "h' = h2[?y := (h2 ! ?y)\<lparr>parent := ?x\<rparr>]"
    have u: "union_ds k h a b = Some h'"
      using f1 f2 True by (simp add: union_ds_def h'_def)
    have l: "djInv n h' \<and> rootCount n h' + 1 = rootCount n h2 \<and>
         (\<forall>s<n. rep h' s = (if rep h2 s = ?y then ?x else rep h2 s))"
      unfolding h'_def using True ne x y len
      by (intro link_ok [OF i2 y py x px]) (simp_all add: nth_list_update)
    from l r have f: "\<forall>s<n. rep h' s = (if rep h s = ?y then ?x else rep h s)" by simp
    have "{?y, ?x} = {?x, ?y}" by (rule insert_commute)
    with u l c1 c2 f show ?thesis by metis
  next
    case False
    define h3 where "h3 = h2[?x := (h2 ! ?x)\<lparr>parent := ?y\<rparr>]"
    define h' where "h' = (if rank (h2 ! ?x) = rank (h2 ! ?y)
              then h3[?y := (h3 ! ?y)\<lparr>rank := rank (h3 ! ?y) + 1\<rparr>] else h3)"
    have u: "union_ds k h a b = Some h'"
      using f1 f2 False ne x y len by (simp add: union_ds_def Let_def h'_def h3_def)
    have l: "djInv n h' \<and> rootCount n h' + 1 = rootCount n h2 \<and>
         (\<forall>s<n. rep h' s = (if rep h2 s = ?x then ?y else rep h2 s))"
      unfolding h'_def h3_def using False ne x y len
      by (intro link_ok [OF i2 x px y py]) (simp_all add: nth_list_update)
    from l r have f: "\<forall>s<n. rep h' s = (if rep h s = ?x then ?y else rep h s)" by simp
    with u l c1 c2 f show ?thesis by metis
  qed
qed

text \<open>After a union two nodes are in one set when they were, or when each was in one of the two sets joined.\<close>

lemma union_ds_same:
  assumes inv: "djInv n h" and a: "a < n" and b: "b < n" and ne: "rep h a \<noteq> rep h b"
    and k: "n < k"
  shows "\<exists>h'. union_ds k h a b = Some h' \<and> djInv n h' \<and> rootCount n h' < rootCount n h \<and>
     (\<forall>s<n. \<forall>t<n. rep h' s = rep h' t \<longleftrightarrow>
        rep h s = rep h t \<or>
        (rep h s = rep h a \<or> rep h s = rep h b) \<and> (rep h t = rep h a \<or> rep h t = rep h b))"
proof -
  from union_ds_ok [OF assms] obtain h' c p where
    u: "union_ds k h a b = Some h'" and i: "djInv n h'"
    and cnt: "rootCount n h' + 1 = rootCount n h" and cp: "{c, p} = {rep h a, rep h b}"
    and r: "\<forall>s<n. rep h' s = (if rep h s = c then p else rep h s)" by blast
  from cp ne have cases: "c = rep h a \<and> p = rep h b \<or> c = rep h b \<and> p = rep h a"
    by (auto simp: doubleton_eq_iff)
  have "rep h' s = rep h' t \<longleftrightarrow>
        rep h s = rep h t \<or>
        (rep h s = rep h a \<or> rep h s = rep h b) \<and> (rep h t = rep h a \<or> rep h t = rep h b)"
    if "s < n" "t < n" for s t
    using r that cases ne by auto
  with u i cnt show ?thesis by auto
qed

section \<open>Paths in a graph\<close>

text \<open>
  A simple path from \<open>u\<close> to \<open>v\<close> in the graph with the edges \<open>E\<close>: a list of distinct
  vertices that starts with \<open>u\<close>, ends with \<open>v\<close> and steps along edges.
\<close>

definition simplePath :: "(nat \<Rightarrow> nat \<Rightarrow> bool) \<Rightarrow> nat \<Rightarrow> nat \<Rightarrow> nat list \<Rightarrow> bool" where
  "simplePath E u v p \<longleftrightarrow>
     p \<noteq> [] \<and> hd p = u \<and> last p = v \<and> distinct p \<and> successively E p"

definition forest :: "(nat \<Rightarrow> nat \<Rightarrow> bool) \<Rightarrow> bool" where
  "forest E \<longleftrightarrow> (\<forall>u v p q. simplePath E u v p \<and> simplePath E u v q \<longrightarrow> p = q)"

definition addEdge :: "(nat \<Rightarrow> nat \<Rightarrow> bool) \<Rightarrow> nat \<Rightarrow> nat \<Rightarrow> nat \<Rightarrow> nat \<Rightarrow> bool" where
  "addEdge E a b = (\<lambda>x y. E x y \<or> x = a \<and> y = b \<or> x = b \<and> y = a)"

lemma simplePath_single: "simplePath E u u [u]"
  by (simp add: simplePath_def)

lemma simplePath_Cons:
  "simplePath E u v (x # y # ys) \<longleftrightarrow>
     x = u \<and> E x y \<and> x \<notin> set (y # ys) \<and> simplePath E y v (y # ys)"
  by (auto simp: simplePath_def)

lemma simplePath_conn: "simplePath E u v p \<Longrightarrow> E\<^sup>*\<^sup>* u v"
proof (induction p arbitrary: u)
  case Nil
  then show ?case by (simp add: simplePath_def)
next
  case (Cons x xs)
  show ?case
  proof (cases xs)
    case Nil
    with Cons.prems show ?thesis by (auto simp: simplePath_def)
  next
    case (Cons y ys)
    with Cons.prems have "x = u \<and> E x y \<and> simplePath E y v xs"
      by (auto simp: simplePath_Cons)
    with Cons.IH [of y] show ?thesis by (auto intro: converse_rtranclp_into_rtranclp)
  qed
qed

lemma conn_simplePath: "E\<^sup>*\<^sup>* u v \<Longrightarrow> \<exists>p. simplePath E u v p"
proof (induction rule: converse_rtranclp_induct)
  case base
  show ?case by (blast intro: simplePath_single)
next
  case (step u w)
  then obtain p where p: "simplePath E w v p" by blast
  show ?case
  proof (cases "u \<in> set p")
    case True
    then obtain p1 p2 where s: "p = p1 @ u # p2" by (auto dest: split_list)
    with p have "simplePath E u v (u # p2)"
      by (auto simp: simplePath_def successively_append_iff)
    then show ?thesis ..
  next
    case False
    with p step.hyps(1) have "simplePath E u v (u # p)"
      by (cases p) (auto simp: simplePath_def)
    then show ?thesis ..
  qed
qed

lemma conn_sym':
  "E\<^sup>*\<^sup>* x y \<Longrightarrow> symp E \<Longrightarrow> E\<^sup>*\<^sup>* y x"
  by (induction rule: rtranclp_induct)
     (auto dest: sympD intro: converse_rtranclp_into_rtranclp)

lemma conn_sym: "symp E \<Longrightarrow> E\<^sup>*\<^sup>* x y \<Longrightarrow> E\<^sup>*\<^sup>* y x"
  by (rule conn_sym')

lemma simplePath_prepend:
  assumes "simplePath E y a p" and "E x y" and "x \<notin> set p"
  shows "simplePath E x a (x # p)"
  using assms by (cases p) (auto simp: simplePath_def)

lemma simplePath_addEdge_split:
  assumes "simplePath (addEdge E a b) u v p"
  shows "simplePath E u v p \<or>
         (\<exists>p1 p2. p = p1 @ p2 \<and> simplePath E u a p1 \<and> simplePath E b v p2) \<or>
         (\<exists>p1 p2. p = p1 @ p2 \<and> simplePath E u b p1 \<and> simplePath E a v p2)"
  using assms
proof (induction p arbitrary: u)
  case Nil
  then show ?case by (simp add: simplePath_def)
next
  case (Cons x xs)
  show ?case
  proof (cases xs)
    case Nil
    with Cons.prems show ?thesis by (simp add: simplePath_def)
  next
    case (Cons y ys)
    with Cons.prems have "x = u \<and> addEdge E a b x y \<and> x \<notin> set xs \<and>
        simplePath (addEdge E a b) y v xs"
      by (auto simp: simplePath_Cons)
    then have xu: "x = u" and e: "addEdge E a b x y" and nin: "x \<notin> set xs"
      and rest: "simplePath (addEdge E a b) y v xs"
      by blast+
    from Cons have hd: "hd xs = y" by simp
    from Cons.IH [OF rest] consider
      (plain) "simplePath E y v xs"
      | (ab) p1 p2 where "xs = p1 @ p2" "simplePath E y a p1" "simplePath E b v p2"
      | (ba) p1 p2 where "xs = p1 @ p2" "simplePath E y b p1" "simplePath E a v p2"
      by blast
    then show ?thesis
    proof cases
      case plain
      from e consider "E x y" | "x = a \<and> y = b" | "x = b \<and> y = a"
        by (auto simp: addEdge_def)
      then show ?thesis
      proof cases
        case 1
        with plain nin xu have "simplePath E u v (x # xs)"
          by (auto intro: simplePath_prepend)
        then show ?thesis by blast
      next
        case 2
        with plain xu have "x # xs = [x] @ xs \<and> simplePath E u a [x] \<and> simplePath E b v xs"
          by (simp add: simplePath_single)
        then show ?thesis by blast
      next
        case 3
        with plain xu have "x # xs = [x] @ xs \<and> simplePath E u b [x] \<and> simplePath E a v xs"
          by (simp add: simplePath_single)
        then show ?thesis by blast
      qed
    next
      case ab
      from ab(2) have "a \<in> set p1" by (auto simp: simplePath_def)
      moreover from ab(3) have "b \<in> set p2" by (auto simp: simplePath_def)
      ultimately have "x \<noteq> a" "x \<noteq> b" "x \<notin> set p1" using nin ab(1) by auto
      with e have "E x y" by (auto simp: addEdge_def)
      with ab(2) \<open>x \<notin> set p1\<close> xu have "simplePath E u a (x # p1)"
        by (auto intro: simplePath_prepend)
      with ab(1,3) have "x # xs = (x # p1) @ p2 \<and> simplePath E u a (x # p1) \<and> simplePath E b v p2"
        by simp
      then show ?thesis by blast
    next
      case ba
      from ba(2) have "b \<in> set p1" by (auto simp: simplePath_def)
      moreover from ba(3) have "a \<in> set p2" by (auto simp: simplePath_def)
      ultimately have "x \<noteq> a" "x \<noteq> b" "x \<notin> set p1" using nin ba(1) by auto
      with e have "E x y" by (auto simp: addEdge_def)
      with ba(2) \<open>x \<notin> set p1\<close> xu have "simplePath E u b (x # p1)"
        by (auto intro: simplePath_prepend)
      with ba(1,3) have "x # xs = (x # p1) @ p2 \<and> simplePath E u b (x # p1) \<and> simplePath E a v p2"
        by simp
      then show ?thesis by blast
    qed
  qed
qed

text \<open>An edge between two vertices that are not connected keeps the paths unique.\<close>

lemma forest_addEdge:
  assumes f: "forest E" and s: "symp E" and n: "\<not> E\<^sup>*\<^sup>* a b"
  shows "forest (addEdge E a b)"
  unfolding forest_def
proof (intro allI impI)
  fix u v p q
  assume pq: "simplePath (addEdge E a b) u v p \<and> simplePath (addEdge E a b) u v q"
  note c = simplePath_conn [of E] and sy = conn_sym [OF s]
  have tr: "E\<^sup>*\<^sup>* x y \<Longrightarrow> E\<^sup>*\<^sup>* y z \<Longrightarrow> E\<^sup>*\<^sup>* x z" for x y z by simp
  have uniq: "simplePath E x y r \<Longrightarrow> simplePath E x y r' \<Longrightarrow> r = r'" for x y r r'
    using f unfolding forest_def by blast
  from pq simplePath_addEdge_split [of E a b u v p] consider
    (p0) "simplePath E u v p"
    | (p1) p1 p2 where "p = p1 @ p2" "simplePath E u a p1" "simplePath E b v p2"
    | (p2) p1 p2 where "p = p1 @ p2" "simplePath E u b p1" "simplePath E a v p2"
    by blast
  then show "p = q"
  proof cases
    case p0
    from pq simplePath_addEdge_split [of E a b u v q] consider
      (q0) "simplePath E u v q"
      | (q1) q1 q2 where "q = q1 @ q2" "simplePath E u a q1" "simplePath E b v q2"
      | (q2) q1 q2 where "q = q1 @ q2" "simplePath E u b q1" "simplePath E a v q2"
      by blast
    then show ?thesis
    proof cases
      case q0
      with p0 show ?thesis by (rule uniq)
    next
      case q1
      have "E\<^sup>*\<^sup>* a b"
        using tr [OF sy [OF c [OF q1(2)]] tr [OF c [OF p0] sy [OF c [OF q1(3)]]]] .
      with n show ?thesis by simp
    next
      case q2
      have "E\<^sup>*\<^sup>* a b"
        using tr [OF c [OF q2(3)] tr [OF sy [OF c [OF p0]] c [OF q2(2)]]] .
      with n show ?thesis by simp
    qed
  next
    case p1
    from pq simplePath_addEdge_split [of E a b u v q] consider
      (q0) "simplePath E u v q"
      | (q1) q1 q2 where "q = q1 @ q2" "simplePath E u a q1" "simplePath E b v q2"
      | (q2) q1 q2 where "q = q1 @ q2" "simplePath E u b q1" "simplePath E a v q2"
      by blast
    then show ?thesis
    proof cases
      case q0
      have "E\<^sup>*\<^sup>* a b"
        using tr [OF sy [OF c [OF p1(2)]] tr [OF c [OF q0] sy [OF c [OF p1(3)]]]] .
      with n show ?thesis by simp
    next
      case q1
      from uniq [OF p1(2) q1(2)] uniq [OF p1(3) q1(3)] p1(1) q1(1) show ?thesis by simp
    next
      case q2
      have "E\<^sup>*\<^sup>* a b"
        using tr [OF sy [OF c [OF p1(2)]] c [OF q2(2)]] .
      with n show ?thesis by simp
    qed
  next
    case p2
    from pq simplePath_addEdge_split [of E a b u v q] consider
      (q0) "simplePath E u v q"
      | (q1) q1 q2 where "q = q1 @ q2" "simplePath E u a q1" "simplePath E b v q2"
      | (q2) q1 q2 where "q = q1 @ q2" "simplePath E u b q1" "simplePath E a v q2"
      by blast
    then show ?thesis
    proof cases
      case q0
      have "E\<^sup>*\<^sup>* a b"
        using tr [OF c [OF p2(3)] tr [OF sy [OF c [OF q0]] c [OF p2(2)]]] .
      with n show ?thesis by simp
    next
      case q1
      have "E\<^sup>*\<^sup>* a b"
        using tr [OF sy [OF c [OF q1(2)]] c [OF p2(2)]] .
      with n show ?thesis by simp
    next
      case q2
      from uniq [OF p2(2) q2(2)] uniq [OF p2(3) q2(3)] p2(1) q2(1) show ?thesis by simp
    qed
  qed
qed

lemma conn_addEdge:
  assumes s: "symp E"
  shows "(addEdge E a b)\<^sup>*\<^sup>* u v \<longleftrightarrow>
         E\<^sup>*\<^sup>* u v \<or> E\<^sup>*\<^sup>* u a \<and> E\<^sup>*\<^sup>* b v \<or> E\<^sup>*\<^sup>* u b \<and> E\<^sup>*\<^sup>* a v"
proof
  assume "(addEdge E a b)\<^sup>*\<^sup>* u v"
  then show "E\<^sup>*\<^sup>* u v \<or> E\<^sup>*\<^sup>* u a \<and> E\<^sup>*\<^sup>* b v \<or> E\<^sup>*\<^sup>* u b \<and> E\<^sup>*\<^sup>* a v"
  proof (induction rule: rtranclp_induct)
    case base
    show ?case by simp
  next
    case (step y z)
    from step.hyps(2) consider "E y z" | "y = a \<and> z = b" | "y = b \<and> z = a"
      by (auto simp: addEdge_def)
    then show ?case
    proof cases
      case 1
      with step.IH show ?thesis by (auto intro: rtranclp.rtrancl_into_rtrancl)
    next
      case 2
      with step.IH conn_sym [OF s] show ?thesis
        by (metis rtranclp.rtrancl_refl rtranclp_trans)
    next
      case 3
      with step.IH conn_sym [OF s] show ?thesis
        by (metis rtranclp.rtrancl_refl rtranclp_trans)
    qed
  qed
next
  have mono: "E\<^sup>*\<^sup>* x y \<Longrightarrow> (addEdge E a b)\<^sup>*\<^sup>* x y" for x y
    by (rule rtranclp_mono [THEN predicate2D, rotated]) (auto simp: addEdge_def)
  have ab: "(addEdge E a b)\<^sup>*\<^sup>* a b" "(addEdge E a b)\<^sup>*\<^sup>* b a"
    by (auto simp: addEdge_def)
  assume "E\<^sup>*\<^sup>* u v \<or> E\<^sup>*\<^sup>* u a \<and> E\<^sup>*\<^sup>* b v \<or> E\<^sup>*\<^sup>* u b \<and> E\<^sup>*\<^sup>* a v"
  then show "(addEdge E a b)\<^sup>*\<^sup>* u v"
    using mono ab by (metis rtranclp_trans)
qed

section \<open>The passages of a maze\<close>

text \<open>
  Two cells are joined by a passage when they are neighbors in a row or in a column and the
  wall between them is cleared on both of its sides.
\<close>

definition rightOpen :: "GridMaze \<Rightarrow> nat \<Rightarrow> bool" where
  "rightOpen m i \<longleftrightarrow>
     i mod width m < width m - 1 \<and> i + 1 < length (cells m) \<and>
     \<not> walls (cells m ! i) 2 \<and> \<not> walls (cells m ! (i + 1)) 0"

definition downOpen :: "GridMaze \<Rightarrow> nat \<Rightarrow> bool" where
  "downOpen m i \<longleftrightarrow>
     i + width m < length (cells m) \<and>
     \<not> walls (cells m ! i) 3 \<and> \<not> walls (cells m ! (i + width m)) 1"

definition passage :: "GridMaze \<Rightarrow> nat \<Rightarrow> nat \<Rightarrow> bool" where
  "passage m a b \<longleftrightarrow>
     b = a + 1 \<and> rightOpen m a \<or> b = a + width m \<and> downOpen m a \<or>
     a = b + 1 \<and> rightOpen m b \<or> a = b + width m \<and> downOpen m b"

definition spanningTree :: "GridMaze \<Rightarrow> bool" where
  "spanningTree m \<longleftrightarrow>
     (\<forall>u<length (cells m). \<forall>v<length (cells m). \<exists>!p. simplePath (passage m) u v p)"

lemma symp_passage: "symp (passage m)"
  by (auto simp: symp_def passage_def)

lemma passage_less: "passage m a b \<Longrightarrow> a < length (cells m) \<and> b < length (cells m)"
  by (auto simp: passage_def rightOpen_def downOpen_def)

lemma rightOpen_clear_right:
  assumes "a mod width m < width m - 1" and "a + 1 < length (cells m)"
  shows "rightOpen (m\<lparr>cells := clearWall (clearWall (cells m) a 2) (a + 1) 0\<rparr>) i \<longleftrightarrow>
         rightOpen m i \<or> i = a"
  using assms by (auto simp: rightOpen_def clearWall_nth)

lemma downOpen_clear_right:
  "downOpen (m\<lparr>cells := clearWall (clearWall (cells m) a 2) (a + 1) 0\<rparr>) i \<longleftrightarrow> downOpen m i"
  by (auto simp: downOpen_def clearWall_nth)

lemma rightOpen_clear_down:
  "rightOpen (m\<lparr>cells := clearWall (clearWall (cells m) a 3) (a + width m) 1\<rparr>) i \<longleftrightarrow> rightOpen m i"
  by (auto simp: rightOpen_def clearWall_nth)

lemma downOpen_clear_down:
  assumes "a + width m < length (cells m)"
  shows "downOpen (m\<lparr>cells := clearWall (clearWall (cells m) a 3) (a + width m) 1\<rparr>) i \<longleftrightarrow>
         downOpen m i \<or> i = a"
  using assms by (auto simp: downOpen_def clearWall_nth)

lemma passage_clear_right:
  assumes "a mod width m < width m - 1" and "a + 1 < length (cells m)"
  shows "passage (m\<lparr>cells := clearWall (clearWall (cells m) a 2) (a + 1) 0\<rparr>) =
         addEdge (passage m) a (a + 1)"
proof (intro ext)
  fix x y
  let ?m = "m\<lparr>cells := clearWall (clearWall (cells m) a 2) (a + 1) 0\<rparr>"
  have w: "width ?m = width m" by simp
  show "passage ?m x y = addEdge (passage m) a (a + 1) x y"
    unfolding passage_def addEdge_def rightOpen_clear_right [OF assms] downOpen_clear_right w
    by auto
qed

lemma passage_clear_down:
  assumes "a + width m < length (cells m)"
  shows "passage (m\<lparr>cells := clearWall (clearWall (cells m) a 3) (a + width m) 1\<rparr>) =
         addEdge (passage m) a (a + width m)"
proof (intro ext)
  fix x y
  let ?m = "m\<lparr>cells := clearWall (clearWall (cells m) a 3) (a + width m) 1\<rparr>"
  have w: "width ?m = width m" by simp
  show "passage ?m x y = addEdge (passage m) a (a + width m) x y"
    unfolding passage_def addEdge_def downOpen_clear_down [OF assms] rightOpen_clear_down w
    by auto
qed

lemma wallsSymmetric_clear_right:
  assumes "wallsSymmetric m"
  shows "wallsSymmetric (m\<lparr>cells := clearWall (clearWall (cells m) a 2) (a + 1) 0\<rparr>)"
  using assms unfolding wallsSymmetric_def by (auto simp: clearWall_nth)

lemma wallsSymmetric_clear_down:
  assumes "wallsSymmetric m"
  shows "wallsSymmetric (m\<lparr>cells := clearWall (clearWall (cells m) a 3) (a + width m) 1\<rparr>)"
  using assms unfolding wallsSymmetric_def by (auto simp: clearWall_nth)


section \<open>The invariant of generation\<close>

definition nbCell :: "GridMaze \<Rightarrow> gridNeighborInfo \<Rightarrow> nat" where
  "nbCell m e = (if neighborDirection e = 2 then baseIndex e + 1 else baseIndex e + width m)"

text \<open>
  An entry of the neighbor list is valid when it names a cell and its right neighbor in the
  same row, or a cell and the cell below it, neither of them excluded.
\<close>

definition validPair :: "GridMaze \<Rightarrow> gridNeighborInfo \<Rightarrow> bool" where
  "validPair m e \<longleftrightarrow>
     (neighborDirection e = 2 \<and> baseIndex e mod width m < width m - 1 \<and>
        baseIndex e + 1 < length (cells m) \<or>
      neighborDirection e = 3 \<and> baseIndex e + width m < length (cells m)) \<and>
     state (cells m ! baseIndex e) \<noteq> 2 \<and> state (cells m ! nbCell m e) \<noteq> 2"

definition joined :: "disjointSet list \<Rightarrow> GridMaze \<Rightarrow> gridNeighborInfo \<Rightarrow> bool" where
  "joined h m e \<longleftrightarrow> rep h (baseIndex e) = rep h (nbCell m e)"

definition nbrsOk :: "disjointSet list \<Rightarrow> GridMaze \<Rightarrow> bool" where
  "nbrsOk h m \<longleftrightarrow>
     length (neighbors m) \<le> 2 * length (cells m) \<and>
     (\<forall>e\<in>set (neighbors m). validPair m e) \<and>
     (\<forall>e. validPair m e \<longrightarrow> e \<in> set (neighbors m) \<or> joined h m e)"

definition connOk :: "disjointSet list \<Rightarrow> GridMaze \<Rightarrow> bool" where
  "connOk h m \<longleftrightarrow>
     (\<forall>a<length (cells m). \<forall>b<length (cells m). rep h a = rep h b \<longleftrightarrow> (passage m)\<^sup>*\<^sup>* a b)"

definition excludedWalled :: "GridMaze \<Rightarrow> bool" where
  "excludedWalled m \<longleftrightarrow>
     (\<forall>i<length (cells m). state (cells m ! i) = 2 \<longrightarrow> (\<forall>d<4. walls (cells m ! i) d))"

definition gridDims :: "nat \<Rightarrow> GridMaze \<Rightarrow> bool" where
  "gridDims n m \<longleftrightarrow>
     1 \<le> width m \<and> 1 \<le> height m \<and> length (cells m) = n \<and> width m * height m = n"

definition genInv :: "nat \<Rightarrow> genState \<Rightarrow> bool" where
  "genInv n s \<longleftrightarrow>
     gridDims n (maze s) \<and> djInv n (store s) \<and> (\<forall>i<n. djSet (cells (maze s) ! i) = i) \<and>
     wallsSymmetric (maze s) \<and> connOk (store s) (maze s) \<and> forest (passage (maze s)) \<and>
     nbrsOk (store s) (maze s) \<and> excludedWalled (maze s)"

lemma genInvI:
  assumes "gridDims n (maze s)" and "djInv n (store s)" and "\<forall>i<n. djSet (cells (maze s) ! i) = i"
    and "wallsSymmetric (maze s)" and "connOk (store s) (maze s)" and "forest (passage (maze s))"
    and "nbrsOk (store s) (maze s)" and "excludedWalled (maze s)"
  shows "genInv n s"
  using assms unfolding genInv_def by blast

lemma genInvD:
  assumes "genInv n s"
  shows "gridDims n (maze s)" and "djInv n (store s)" and "\<forall>i<n. djSet (cells (maze s) ! i) = i"
    and "wallsSymmetric (maze s)" and "connOk (store s) (maze s)" and "forest (passage (maze s))"
    and "nbrsOk (store s) (maze s)" and "excludedWalled (maze s)"
    and "length (cells (maze s)) = n"
  using assms unfolding genInv_def gridDims_def by blast+

subsection \<open>The state at the start of the loop\<close>

lemma initCells_Cons:
  "initCells h (c # cs) =
     (fst (initCells (h @ [\<lparr>parent = length h, rank = 0\<rparr>]) cs),
      c\<lparr>djSet := length h, walls := (\<lambda>i. True)\<rparr> #
        snd (initCells (h @ [\<lparr>parent = length h, rank = 0\<rparr>]) cs))"
  by (simp add: initGridMazeCell_def newDisjointSet_def Let_def split: prod.splits)

lemma initCells_length:
  "length (fst (initCells h cs)) = length h + length cs \<and> length (snd (initCells h cs)) = length cs"
  by (induction cs arbitrary: h) (simp_all add: initCells_Cons del: initCells.simps(2))

lemma initCells_store_old:
  "i < length h \<Longrightarrow> fst (initCells h cs) ! i = h ! i"
  by (induction cs arbitrary: h)
     (simp_all add: initCells_Cons nth_append del: initCells.simps(2))

lemma initCells_store_new:
  "i < length cs \<Longrightarrow> fst (initCells h cs) ! (length h + i) = \<lparr>parent = length h + i, rank = 0\<rparr>"
proof (induction cs arbitrary: h i)
  case Nil
  then show ?case by simp
next
  case (Cons c cs)
  let ?h = "h @ [\<lparr>parent = length h, rank = 0\<rparr>]"
  have e: "fst (initCells h (c # cs)) = fst (initCells ?h cs)"
    by (simp add: initCells_Cons del: initCells.simps(2))
  show ?case
  proof (cases i)
    case 0
    have "fst (initCells ?h cs) ! length h = ?h ! length h"
      by (rule initCells_store_old) simp
    with 0 e show ?thesis by simp
  next
    case (Suc j)
    with Cons.prems have "j < length cs" by simp
    from Cons.IH [OF this, of ?h] Suc e show ?thesis by simp
  qed
qed

lemma initCells_cell:
  "i < length cs \<Longrightarrow>
   snd (initCells h cs) ! i = (cs ! i)\<lparr>djSet := length h + i, walls := (\<lambda>i. True)\<rparr>"
proof (induction cs arbitrary: h i)
  case Nil
  then show ?case by simp
next
  case (Cons c cs)
  let ?h = "h @ [\<lparr>parent = length h, rank = 0\<rparr>]"
  have e: "snd (initCells h (c # cs)) =
      c\<lparr>djSet := length h, walls := (\<lambda>i. True)\<rparr> # snd (initCells ?h cs)"
    by (simp add: initCells_Cons del: initCells.simps(2))
  show ?case
  proof (cases i)
    case 0
    with e show ?thesis by simp
  next
    case (Suc j)
    with Cons.prems have "j < length cs" by simp
    from Cons.IH [OF this, of ?h] Suc e show ?thesis by simp
  qed
qed

lemma initCells_djInv:
  assumes "initCells [] cs = (h, cs')"
  shows "djInv (length cs) h" and "\<forall>i<length cs. rep h i = i" and "rootCount (length cs) h = length cs"
proof -
  from assms initCells_length [of "[]" cs] have l: "length h = length cs" by simp
  from assms initCells_store_new [of _ cs "[]"]
  have n: "\<forall>i<length cs. h ! i = \<lparr>parent = i, rank = 0\<rparr>" by simp
  then have "{j. j < length cs \<and> parent (h ! j) = j} = {..<length cs}" by auto
  then show c: "rootCount (length cs) h = length cs" by (simp add: rootCount_def)
  from l n c show "djInv (length cs) h" by (simp add: djInv_def)
  from n show "\<forall>i<length cs. rep h i = i" by (simp add: rep_of_root)
qed


lemma cell_index_less:
  assumes "row < h" and "col < w"
  shows "row * w + col < w * (h :: nat)"
proof -
  from assms(1) have "(row + 1) * w \<le> h * w" by (intro mult_le_mono1) simp
  with assms(2) show ?thesis by (simp add: algebra_simps)
qed

lemma cellNeighbors_iff:
  "e \<in> set (cellNeighbors m row col) \<longleftrightarrow>
     state (cells m ! (row * width m + col)) \<noteq> 2 \<and>
     (col \<noteq> width m - 1 \<and> state (cells m ! (row * width m + col + 1)) \<noteq> 2 \<and>
        e = \<lparr>baseIndex = row * width m + col, neighborDirection = 2\<rparr> \<or>
      row \<noteq> height m - 1 \<and> state (cells m ! (row * width m + col + width m)) \<noteq> 2 \<and>
        e = \<lparr>baseIndex = row * width m + col, neighborDirection = 3\<rparr>)"
  by (auto simp: cellNeighbors_def Let_def)

lemma cellNeighbors_length: "length (cellNeighbors m row col) \<le> 2"
  by (simp add: cellNeighbors_def Let_def)

lemma concat_length_le:
  "(\<forall>x\<in>set xs. length (f x) \<le> c) \<Longrightarrow> length (concat (map f xs)) \<le> c * length xs"
  by (induction xs) (auto simp: algebra_simps)

definition allNeighbors :: "GridMaze \<Rightarrow> gridNeighborInfo list" where
  "allNeighbors m =
     concat (map (\<lambda>row. concat (map (\<lambda>col. cellNeighbors m row col) [0..<width m]))
       [0..<height m])"

lemma allNeighbors_length: "length (allNeighbors m) \<le> 2 * (width m * height m)"
proof -
  have "length (concat (map (\<lambda>col. cellNeighbors m row col) [0..<width m])) \<le> 2 * width m" for row
    using concat_length_le [of "[0..<width m]" "\<lambda>col. cellNeighbors m row col" 2]
    by (simp add: cellNeighbors_length)
  then have "length (allNeighbors m) \<le> (2 * width m) * length [0..<height m]"
    unfolding allNeighbors_def by (intro concat_length_le) simp
  then show ?thesis by (simp add: algebra_simps)
qed

lemma allNeighbors_iff:
  assumes "gridDims n m"
  shows "e \<in> set (allNeighbors m) \<longleftrightarrow> validPair m e"
proof
  from assms have w: "1 \<le> width m" and n: "length (cells m) = width m * height m"
    by (simp_all add: gridDims_def)
  assume "e \<in> set (allNeighbors m)"
  then obtain row col where r: "row < height m" and c: "col < width m"
    and e: "e \<in> set (cellNeighbors m row col)"
    by (auto simp: allNeighbors_def)
  let ?i = "row * width m + col"
  from c have md: "?i mod width m = col" by simp
  from e have s: "state (cells m ! ?i) \<noteq> 2" by (simp add: cellNeighbors_iff)
  from e consider
    (right) "col \<noteq> width m - 1" "state (cells m ! (?i + 1)) \<noteq> 2"
      "e = \<lparr>baseIndex = ?i, neighborDirection = 2\<rparr>"
    | (down) "row \<noteq> height m - 1" "state (cells m ! (?i + width m)) \<noteq> 2"
      "e = \<lparr>baseIndex = ?i, neighborDirection = 3\<rparr>"
    by (auto simp: cellNeighbors_iff)
  then show "validPair m e"
  proof cases
    case right
    with c have c': "col + 1 < width m" by simp
    from cell_index_less [OF r c'] have "?i + 1 < length (cells m)" by (simp add: n)
    with right s md c' show ?thesis by (simp add: validPair_def nbCell_def)
  next
    case down
    with r have "row + 1 < height m" by simp
    from cell_index_less [OF this c] have "?i + width m < length (cells m)"
      by (simp add: n algebra_simps)
    with down s show ?thesis by (simp add: validPair_def nbCell_def)
  qed
next
  from assms have w: "1 \<le> width m" and n: "length (cells m) = width m * height m"
    by (simp_all add: gridDims_def)
  assume v: "validPair m e"
  let ?b = "baseIndex e"
  let ?row = "?b div width m" and ?col = "?b mod width m"
  have b: "?row * width m + ?col = ?b" by simp
  from w have c: "?col < width m" by simp
  from v have s: "state (cells m ! ?b) \<noteq> 2" "state (cells m ! nbCell m e) \<noteq> 2"
    by (simp_all add: validPair_def)
  from v consider
    (right) "neighborDirection e = 2" "?col < width m - 1" "?b + 1 < length (cells m)"
    | (down) "neighborDirection e = 3" "?b + width m < length (cells m)"
    by (auto simp: validPair_def)
  then have "?row < height m \<and> e \<in> set (cellNeighbors m ?row ?col)"
  proof cases
    case right
    from right(3) n have "?b < height m * width m" by (simp add: algebra_simps)
    then have r: "?row < height m" by (rule less_mult_imp_div_less)
    have "e = \<lparr>baseIndex = ?b, neighborDirection = 2\<rparr>" using right(1) by (cases e) simp
    with right s r show ?thesis by (simp add: cellNeighbors_iff b nbCell_def)
  next
    case down
    from down(2) n have "?b + width m < height m * width m" by (simp add: algebra_simps)
    then have "(?b + width m) div width m < height m" by (rule less_mult_imp_div_less)
    moreover from w have "width m \<noteq> 0" by simp
    then have "(?b + width m) div width m = ?row + 1" by (simp add: div_add_self2)
    ultimately have r: "?row + 1 < height m" by simp
    have "e = \<lparr>baseIndex = ?b, neighborDirection = 3\<rparr>" using down(1) by (cases e) simp
    moreover from r have "?row \<noteq> height m - 1" "?row < height m" by simp_all
    ultimately show ?thesis using down s by (simp add: cellNeighbors_iff b nbCell_def)
  qed
  then have r: "?row < height m" and e: "e \<in> set (cellNeighbors m ?row ?col)"
    by simp_all
  from e c have "e \<in> set (concat (map (\<lambda>col. cellNeighbors m ?row col) [0..<width m]))"
    by (simp del: mod_less_divisor) (rule bexI [of _ ?col], simp_all)
  with r show "e \<in> set (allNeighbors m)"
    unfolding allNeighbors_def
    by (simp del: mod_less_divisor) (rule bexI [of _ ?row], simp_all)
qed

lemma no_pair_in_single_cell:
  assumes "width m = 1" and "length (cells m) = 1"
  shows "\<not> validPair m e"
  using assms by (simp add: validPair_def)

lemma initDisjointNeighbors_eq:
  assumes "gridDims n m" and "n = 1 \<longrightarrow> neighbors m = []"
  shows "\<exists>l. initDisjointNeighbors m = Inr (m\<lparr>neighbors := l\<rparr>) \<and>
          length l \<le> 2 * n \<and> (\<forall>e. e \<in> set l \<longleftrightarrow> validPair m e)"
proof (cases "(width m - 1) * height m + (height m - 1) * width m = 0")
  case True
  with assms(1) have wh: "width m = 1" "height m = 1" by (auto simp: gridDims_def)
  with assms have n: "length (cells m) = 1" "neighbors m = []" by (simp_all add: gridDims_def)
  have "initDisjointNeighbors m = Inr (m\<lparr>neighbors := []\<rparr>)"
    using True n by (simp add: initDisjointNeighbors_def)
  with no_pair_in_single_cell [OF wh(1) n(1)] show ?thesis by auto
next
  case False
  then have "initDisjointNeighbors m = Inr (m\<lparr>neighbors := allNeighbors m\<rparr>)"
    unfolding initDisjointNeighbors_def allNeighbors_def Let_def by (simp only: if_False)
  with allNeighbors_length [of m] allNeighbors_iff [OF assms(1)] assms(1)
  show ?thesis by (auto simp: gridDims_def)
qed


lemma conn_no_edges:
  assumes "\<forall>x y. \<not> E x y"
  shows "E\<^sup>*\<^sup>* a b \<longleftrightarrow> a = b"
proof
  assume "E\<^sup>*\<^sup>* a b"
  then show "a = b" using assms by (induction rule: rtranclp_induct) auto
qed auto

lemma simplePath_no_edges:
  assumes "\<forall>x y. \<not> E x y" and "simplePath E u v p"
  shows "p = [u]"
proof (cases p)
  case Nil
  with assms(2) show ?thesis by (simp add: simplePath_def)
next
  case (Cons x xs)
  show ?thesis
  proof (cases xs)
    case Nil
    with Cons assms(2) show ?thesis by (simp add: simplePath_def)
  next
    case (Cons y ys)
    with \<open>p = x # xs\<close> assms show ?thesis by (simp add: simplePath_Cons)
  qed
qed

lemma forest_no_edges: "\<forall>x y. \<not> E x y \<Longrightarrow> forest E"
  unfolding forest_def by (blast dest: simplePath_no_edges)

lemma passage_all_walled:
  assumes "\<forall>i<length (cells m). \<forall>d. walls (cells m ! i) d"
  shows "\<not> passage m a b"
  using assms by (auto simp: passage_def rightOpen_def downOpen_def)

lemma validPair_fields [simp]:
  "validPair (m\<lparr>neighbors := l\<rparr>) e = validPair m e"
  "validPair (m\<lparr>randomSeed := sd\<rparr>) e = validPair m e"
  "nbCell (m\<lparr>neighbors := l\<rparr>) e = nbCell m e"
  "nbCell (m\<lparr>randomSeed := sd\<rparr>) e = nbCell m e"
  by (simp_all add: validPair_def nbCell_def)

lemma passage_fields [simp]:
  "passage (m\<lparr>neighbors := l\<rparr>) = passage m"
  "passage (m\<lparr>randomSeed := sd\<rparr>) = passage m"
  by (simp_all add: passage_def rightOpen_def downOpen_def fun_eq_iff)

lemma genInv_init:
  assumes v: "validGrid m" and ic: "initCells [] (cells m) = (h, cs)"
  shows "\<exists>l. initDisjointNeighbors (m\<lparr>cells := cs\<rparr>) = Inr (m\<lparr>cells := cs, neighbors := l\<rparr>) \<and>
           genInv (length (cells m))
             \<lparr>maze = m\<lparr>cells := cs, neighbors := l, randomSeed := sd\<rparr>, store = h, rng = r\<rparr> \<and>
           rootCount (length (cells m)) h = length (cells m) \<and>
           length cs = length (cells m) \<and>
           (\<forall>i<length (cells m). state (cs ! i) = state (cells m ! i))"
proof -
  let ?n = "length (cells m)"
  from ic initCells_length [of "[]" "cells m"] have lc: "length cs = ?n" by simp
  from ic initCells_cell [of _ "cells m" "[]"]
  have cell: "\<forall>i<?n. cs ! i = (cells m ! i)\<lparr>djSet := i, walls := (\<lambda>i. True)\<rparr>" by simp
  from v lc have gd: "gridDims ?n (m\<lparr>cells := cs\<rparr>)"
    by (simp add: validGrid_def gridDims_def)
  from v have "?n = 1 \<longrightarrow> neighbors (m\<lparr>cells := cs\<rparr>) = []"
    by (simp add: validGrid_def)
  from initDisjointNeighbors_eq [OF gd this] obtain l where
    l: "initDisjointNeighbors (m\<lparr>cells := cs\<rparr>) = Inr (m\<lparr>cells := cs, neighbors := l\<rparr>)"
    and ll: "length l \<le> 2 * ?n" and lv: "\<forall>e. e \<in> set l \<longleftrightarrow> validPair (m\<lparr>cells := cs\<rparr>) e"
    by auto
  let ?m = "m\<lparr>cells := cs, neighbors := l, randomSeed := sd\<rparr>"
  have walled: "\<forall>i<length (cells ?m). \<forall>d. walls (cells ?m ! i) d"
    using cell lc by simp
  note np = passage_all_walled [OF walled]
  have "gridDims ?n ?m" using gd by (simp add: gridDims_def)
  moreover have "djInv ?n h" using initCells_djInv(1) [OF ic] .
  moreover have "\<forall>i<?n. djSet (cells ?m ! i) = i" using cell by simp
  moreover have "wallsSymmetric ?m" using walled by (simp add: wallsSymmetric_def)
  moreover have "connOk h ?m"
    using initCells_djInv(2) [OF ic] conn_no_edges [of "passage ?m"] np lc
    by (simp add: connOk_def)
  moreover have "forest (passage ?m)" using np by (intro forest_no_edges) blast
  moreover have "nbrsOk h ?m" using ll lv lc by (simp add: nbrsOk_def)
  moreover have "excludedWalled ?m" using walled by (simp add: excludedWalled_def)
  ultimately have "genInv ?n \<lparr>maze = ?m, store = h, rng = r\<rparr>"
    by (intro genInvI) simp_all
  with l initCells_djInv(3) [OF ic] lc cell show ?thesis by auto
qed


subsection \<open>Sampling and cleaning the neighbor list\<close>

lemma validPair_less:
  "validPair m e \<Longrightarrow> baseIndex e < length (cells m) \<and> nbCell m e < length (cells m)"
  by (auto simp: validPair_def nbCell_def)

lemma neighborIndex_valid: "validPair m e \<Longrightarrow> neighborIndex m e = Inr (nbCell m e)"
  by (auto simp: validPair_def nbCell_def neighborIndex_def)

lemma joined_fields [simp]:
  "joined h (m\<lparr>neighbors := l\<rparr>) e = joined h m e"
  by (simp add: joined_def)

lemma joined_same_reps:
  assumes "validPair m e" and "length (cells m) = n" and "\<forall>t<n. rep h' t = rep h t"
  shows "joined h' m e = joined h m e"
  using assms validPair_less [OF assms(1)] by (simp add: joined_def)

lemma genInv_store:
  assumes "genInv n s" and "djInv n h'" and "\<forall>t<n. rep h' t = rep (store s) t"
    and "maze s' = maze s" and "store s' = h'"
  shows "genInv n s'"
proof -
  note d = genInvD [OF assms(1)]
  from d(5) d(9) assms(3) have c: "connOk h' (maze s)" by (simp add: connOk_def)
  from d(7) joined_same_reps [OF _ d(9) assms(3)]
  have "nbrsOk h' (maze s)" by (auto simp: nbrsOk_def)
  with c d assms(2,4,5) show ?thesis by (intro genInvI) simp_all
qed

lemma sampleNeighbor_ok:
  assumes inv: "genInv n s" and ne: "neighbors (maze s) \<noteq> []" and k: "n < k"
  shows "\<exists>e h'. e \<in> set (neighbors (maze s)) \<and> djInv n h' \<and>
     (\<forall>t<n. rep h' t = rep (store s) t) \<and> rootCount n h' = rootCount n (store s) \<and>
     sampleNeighbor k s =
       Some ((if joined (store s) (maze s) e then None else Some e, None),
             s\<lparr>store := h', rng := (\<lambda>i. rng s (Suc i))\<rparr>)"
proof -
  let ?m = "maze s"
  let ?i = "rng s 0 mod length (neighbors ?m)"
  let ?e = "neighbors ?m ! ?i"
  from ne have i: "?i < length (neighbors ?m)" by simp
  then have mem: "?e \<in> set (neighbors ?m)" by (rule nth_mem)
  note d = genInvD [OF inv]
  note n = d(9) and dj = d(2) and own = d(3) and nb = d(7)
  from nb mem have v: "validPair ?m ?e" by (simp add: nbrsOk_def)
  from validPair_less [OF v] n have a: "baseIndex ?e < n" and b: "nbCell ?m ?e < n" by simp_all
  from findSet_ok [OF dj a k] obtain h1 where
    f1: "findSet k (store s) (baseIndex ?e) = Some (rep (store s) (baseIndex ?e), h1)"
    and d1: "djInv n h1" and c1: "rootCount n h1 = rootCount n (store s)"
    and r1: "\<forall>t<n. rep h1 t = rep (store s) t" by blast
  from findSet_ok [OF d1 b k] r1 b obtain h2 where
    f2: "findSet k h1 (nbCell ?m ?e) = Some (rep (store s) (nbCell ?m ?e), h2)"
    and d2: "djInv n h2" and c2: "rootCount n h2 = rootCount n h1"
    and r2: "\<forall>t<n. rep h2 t = rep h1 t" by auto
  have "sampleNeighbor k s =
       Some ((if joined (store s) ?m ?e then None else Some ?e, None),
             s\<lparr>store := h2, rng := (\<lambda>i. rng s (Suc i))\<rparr>)"
    using f1 f2 own a b neighborIndex_valid [OF v]
    by (simp add: sampleNeighbor_def Intn_def Let_def joined_def)
  with mem d2 c1 c2 r1 r2 show ?thesis by (intro exI [of _ ?e] exI [of _ h2]) simp
qed

lemma set_swap_remove_subset: "set (butlast (xs[i := last xs])) \<subseteq> set xs"
proof
  fix x assume "x \<in> set (butlast (xs[i := last xs]))"
  then have "x \<in> set (xs[i := last xs])" by (rule in_set_butlastD)
  then have "x \<in> insert (last xs) (set xs)" using set_update_subset_insert by fast
  moreover have "xs \<noteq> []" using \<open>x \<in> set (xs[i := last xs])\<close> by auto
  ultimately show "x \<in> set xs" by auto
qed

lemma nth_swap_remove:
  assumes "j < i" and "i < length xs"
  shows "butlast (xs[i := last xs]) ! j = xs ! j"
  using assms by (simp add: nth_butlast)

lemma set_swap_remove_rest:
  assumes "i < length xs" and "x \<in> set xs"
  shows "x = xs ! i \<or> x \<in> set (butlast (xs[i := last xs]))"
proof -
  from assms(2) obtain j where j: "j < length xs" "x = xs ! j" by (auto simp: in_set_conv_nth)
  let ?ys = "butlast (xs[i := last xs])"
  have len: "length ?ys = length xs - 1" by simp
  show ?thesis
  proof (cases "j = i")
    case True
    with j show ?thesis by simp
  next
    case False
    show ?thesis
    proof (cases "j = length xs - 1")
      case True
      with False assms(1) j have i: "i < length xs - 1" by simp
      from assms(1) have "xs \<noteq> []" by auto
      with j True have "x = last xs" by (simp add: last_conv_nth)
      with i assms(1) have "?ys ! i = x" by (simp add: nth_butlast)
      with i len show ?thesis by (metis nth_mem)
    next
      case False
      with j have jl: "j < length xs - 1" by simp
      with \<open>j \<noteq> i\<close> have "?ys ! j = x" using j by (simp add: nth_butlast)
      with jl len show ?thesis by (metis nth_mem)
    qed
  qed
qed

lemma genInv_remove:
  assumes inv: "genInv n s" and i: "i < length (neighbors (maze s))"
    and j: "joined (store s) (maze s) (neighbors (maze s) ! i)"
  shows "genInv n (s\<lparr>maze := (maze s)\<lparr>neighbors :=
            butlast ((neighbors (maze s))[i := last (neighbors (maze s))])\<rparr>\<rparr>)"
proof -
  let ?m = "maze s" and ?l = "neighbors (maze s)"
  let ?l' = "butlast (?l[i := last ?l])"
  note d = genInvD [OF inv]
  note nb = d(7)
  have "nbrsOk (store s) (?m\<lparr>neighbors := ?l'\<rparr>)"
    unfolding nbrsOk_def
  proof (intro conjI allI impI ballI)
    show "length (neighbors (?m\<lparr>neighbors := ?l'\<rparr>)) \<le> 2 * length (cells (?m\<lparr>neighbors := ?l'\<rparr>))"
      using nb by (auto simp: nbrsOk_def)
  next
    fix e assume "e \<in> set (neighbors (?m\<lparr>neighbors := ?l'\<rparr>))"
    then have "e \<in> set ?l" using set_swap_remove_subset [of ?l i] by auto
    with nb show "validPair (?m\<lparr>neighbors := ?l'\<rparr>) e" by (simp add: nbrsOk_def)
  next
    fix e assume "validPair (?m\<lparr>neighbors := ?l'\<rparr>) e"
    with nb have "e \<in> set ?l \<or> joined (store s) ?m e" by (simp add: nbrsOk_def)
    with set_swap_remove_rest [OF i, of e] j
    show "e \<in> set (neighbors (?m\<lparr>neighbors := ?l'\<rparr>)) \<or> joined (store s) (?m\<lparr>neighbors := ?l'\<rparr>) e"
      by auto
  qed
  moreover from d(1) have "gridDims n (?m\<lparr>neighbors := ?l'\<rparr>)" by (simp add: gridDims_def)
  moreover from d(4) have "wallsSymmetric (?m\<lparr>neighbors := ?l'\<rparr>)"
    by (simp add: wallsSymmetric_def)
  moreover from d(5) have "connOk (store s) (?m\<lparr>neighbors := ?l'\<rparr>)" by (simp add: connOk_def)
  moreover from d(8) have "excludedWalled (?m\<lparr>neighbors := ?l'\<rparr>)"
    by (simp add: excludedWalled_def)
  ultimately show ?thesis using d(2,3,6) by (intro genInvI) simp_all
qed


lemma find_pair:
  assumes inv: "genInv n s" and v: "validPair (maze s) e" and k: "n < k"
  shows "\<exists>h1 h2.
     findSet k (store s) (djSet (cells (maze s) ! baseIndex e)) =
       Some (rep (store s) (baseIndex e), h1) \<and>
     findSet k h1 (djSet (cells (maze s) ! nbCell (maze s) e)) =
       Some (rep (store s) (nbCell (maze s) e), h2) \<and>
     djInv n h2 \<and> (\<forall>t<n. rep h2 t = rep (store s) t) \<and>
     rootCount n h2 = rootCount n (store s)"
proof -
  note d = genInvD [OF inv]
  from validPair_less [OF v] d(9) have a: "baseIndex e < n" and b: "nbCell (maze s) e < n"
    by simp_all
  from findSet_ok [OF d(2) a k] obtain h1 where
    f1: "findSet k (store s) (baseIndex e) = Some (rep (store s) (baseIndex e), h1)"
    and d1: "djInv n h1" and c1: "rootCount n h1 = rootCount n (store s)"
    and r1: "\<forall>t<n. rep h1 t = rep (store s) t" by blast
  from findSet_ok [OF d1 b k] r1 b obtain h2 where
    f2: "findSet k h1 (nbCell (maze s) e) = Some (rep (store s) (nbCell (maze s) e), h2)"
    and d2: "djInv n h2" and c2: "rootCount n h2 = rootCount n h1"
    and r2: "\<forall>t<n. rep h2 t = rep h1 t" by auto
  from f1 f2 d2 c1 c2 r1 r2 d(3) a b show ?thesis by auto
qed

lemma updateLoop_ok:
  assumes k: "n < k"
  shows "genInv n s \<Longrightarrow> i \<le> length (neighbors (maze s)) \<Longrightarrow>
     length (neighbors (maze s)) - i < f \<Longrightarrow>
     (\<forall>j<i. \<not> joined (store s) (maze s) (neighbors (maze s) ! j)) \<Longrightarrow>
     \<exists>l h'. updateLoop k f s i = Some (None, s\<lparr>maze := (maze s)\<lparr>neighbors := l\<rparr>, store := h'\<rparr>) \<and>
        genInv n (s\<lparr>maze := (maze s)\<lparr>neighbors := l\<rparr>, store := h'\<rparr>) \<and>
        (\<forall>t<n. rep h' t = rep (store s) t) \<and> rootCount n h' = rootCount n (store s) \<and>
        (\<forall>e\<in>set l. \<not> joined h' (maze s) e)"
proof (induction f arbitrary: s i)
  case 0
  then show ?case by simp
next
  case (Suc f)
  let ?m = "maze s" and ?l = "neighbors (maze s)"
  note inv = Suc.prems(1)
  note d = genInvD [OF inv]
  show ?case
  proof (cases "i < length ?l")
    case False
    with Suc.prems(2) have i: "i = length ?l" by simp
    have "updateLoop k (Suc f) s i = Some (None, s)" using False by (simp add: Let_def)
    moreover have "s\<lparr>maze := ?m\<lparr>neighbors := ?l\<rparr>, store := store s\<rparr> = s" by simp
    moreover have "\<forall>e\<in>set ?l. \<not> joined (store s) ?m e"
      using Suc.prems(4) i by (auto simp: in_set_conv_nth)
    ultimately show ?thesis using inv
      by (intro exI [of _ ?l] exI [of _ "store s"]) simp
  next
    case True
    let ?e = "?l ! i"
    from True have mem: "?e \<in> set ?l" by (rule nth_mem)
    with d(7) have v: "validPair ?m ?e" by (simp add: nbrsOk_def)
    from find_pair [OF inv v k] obtain h1 h2 where
      f1: "findSet k (store s) (djSet (cells ?m ! baseIndex ?e)) =
             Some (rep (store s) (baseIndex ?e), h1)"
      and f2: "findSet k h1 (djSet (cells ?m ! nbCell ?m ?e)) =
             Some (rep (store s) (nbCell ?m ?e), h2)"
      and d2: "djInv n h2" and r2: "\<forall>t<n. rep h2 t = rep (store s) t"
      and c2: "rootCount n h2 = rootCount n (store s)" by blast
    have js: "joined h2 ?m x = joined (store s) ?m x" if "validPair ?m x" for x
      using joined_same_reps [OF that d(9) r2] .
    have jl: "joined h2 ?m (?l ! j) = joined (store s) ?m (?l ! j)" if "j < length ?l" for j
      using js d(7) that by (simp add: nbrsOk_def)
    show ?thesis
    proof (cases "joined (store s) ?m ?e")
      case False
      let ?s1 = "s\<lparr>store := h2\<rparr>"
      have step: "updateLoop k (Suc f) s i = updateLoop k f ?s1 (i + 1)"
        using True False f1 f2 neighborIndex_valid [OF v] by (simp add: Let_def joined_def)
      have inv1: "genInv n ?s1" using inv d2 r2 by (rule genInv_store) simp_all
      have p2: "i + 1 \<le> length (neighbors (maze ?s1))" using True by simp
      have p3: "length (neighbors (maze ?s1)) - (i + 1) < f" using Suc.prems(3) True by simp
      have p4: "\<forall>j<i + 1. \<not> joined (store ?s1) (maze ?s1) (neighbors (maze ?s1) ! j)"
      proof (intro allI impI)
        fix j assume "j < i + 1"
        then have "j < i \<or> j = i" by auto
        with Suc.prems(4) False True jl [of j]
        show "\<not> joined (store ?s1) (maze ?s1) (neighbors (maze ?s1) ! j)" by auto
      qed
      from Suc.IH [OF inv1 p2 p3 p4] obtain l h' where
        u: "updateLoop k f ?s1 (i + 1) =
              Some (None, ?s1\<lparr>maze := (maze ?s1)\<lparr>neighbors := l\<rparr>, store := h'\<rparr>)"
        and g: "genInv n (?s1\<lparr>maze := (maze ?s1)\<lparr>neighbors := l\<rparr>, store := h'\<rparr>)"
        and r: "\<forall>t<n. rep h' t = rep (store ?s1) t"
        and c: "rootCount n h' = rootCount n (store ?s1)"
        and nj: "\<forall>e\<in>set l. \<not> joined h' (maze ?s1) e" by blast
      from step u g r c nj r2 c2 show ?thesis
        by (intro exI [of _ l] exI [of _ h']) simp
    next
      case jn: True
      let ?l1 = "butlast (?l[i := last ?l])"
      let ?s1 = "s\<lparr>maze := ?m\<lparr>neighbors := ?l1\<rparr>, store := h2\<rparr>"
      have step: "updateLoop k (Suc f) s i = updateLoop k f ?s1 i"
        using True jn f1 f2 neighborIndex_valid [OF v] by (simp add: Let_def joined_def)
      have "genInv n (s\<lparr>maze := ?m\<lparr>neighbors := ?l1\<rparr>\<rparr>)"
        using inv True jn by (rule genInv_remove)
      then have inv1: "genInv n ?s1" using d2 by (rule genInv_store) (simp_all add: r2)
      have p2: "i \<le> length (neighbors (maze ?s1))" using True by simp
      have p3: "length (neighbors (maze ?s1)) - i < f" using Suc.prems(3) True by simp
      have p4: "\<forall>j<i. \<not> joined (store ?s1) (maze ?s1) (neighbors (maze ?s1) ! j)"
      proof (intro allI impI)
        fix j assume j: "j < i"
        with True have "?l1 ! j = ?l ! j" by (simp add: nth_butlast)
        with Suc.prems(4) j True jl [of j]
        show "\<not> joined (store ?s1) (maze ?s1) (neighbors (maze ?s1) ! j)" by simp
      qed
      from Suc.IH [OF inv1 p2 p3 p4] obtain l h' where
        u: "updateLoop k f ?s1 i =
              Some (None, ?s1\<lparr>maze := (maze ?s1)\<lparr>neighbors := l\<rparr>, store := h'\<rparr>)"
        and g: "genInv n (?s1\<lparr>maze := (maze ?s1)\<lparr>neighbors := l\<rparr>, store := h'\<rparr>)"
        and r: "\<forall>t<n. rep h' t = rep (store ?s1) t"
        and c: "rootCount n h' = rootCount n (store ?s1)"
        and nj: "\<forall>e\<in>set l. \<not> joined h' (maze ?s1) e" by blast
      from step u g r c nj r2 c2 show ?thesis
        by (intro exI [of _ l] exI [of _ h']) simp
    qed
  qed
qed


lemma getDisjointNeighbor_ok:
  assumes inv: "genInv n s" and ne: "neighbors (maze s) \<noteq> []" and k: "2 * n < k"
  shows "\<exists>out l h' r'. getDisjointNeighbor k s =
        Some (out, s\<lparr>maze := (maze s)\<lparr>neighbors := l\<rparr>, store := h', rng := r'\<rparr>) \<and>
     genInv n (s\<lparr>maze := (maze s)\<lparr>neighbors := l\<rparr>, store := h', rng := r'\<rparr>) \<and>
     rootCount n h' = rootCount n (store s) \<and>
     (out = (None, True, None) \<and> l = [] \<or>
      (\<exists>e. out = (Some e, False, None) \<and> validPair (maze s) e \<and> \<not> joined h' (maze s) e))"
proof -
  let ?m = "maze s"
  from k have k': "n < k" by simp
  note d = genInvD [OF inv]
  from sampleNeighbor_ok [OF inv ne k'] obtain e1 h1 where
    m1: "e1 \<in> set (neighbors ?m)" and d1: "djInv n h1"
    and r1: "\<forall>t<n. rep h1 t = rep (store s) t" and c1: "rootCount n h1 = rootCount n (store s)"
    and s1: "sampleNeighbor k s =
       Some ((if joined (store s) ?m e1 then None else Some e1, None),
             s\<lparr>store := h1, rng := (\<lambda>i. rng s (Suc i))\<rparr>)" by blast
  let ?s1 = "s\<lparr>store := h1, rng := (\<lambda>i. rng s (Suc i))\<rparr>"
  have inv1: "genInv n ?s1" using inv d1 r1 by (rule genInv_store) simp_all
  from d(7) m1 have v1: "validPair ?m e1" by (simp add: nbrsOk_def)
  show ?thesis
  proof (cases "joined (store s) ?m e1")
    case False
    with s1 ne have "getDisjointNeighbor k s = Some ((Some e1, False, None), ?s1)"
      by (simp add: getDisjointNeighbor_def)
    moreover from False joined_same_reps [OF v1 d(9) r1] have "\<not> joined h1 ?m e1" by simp
    ultimately show ?thesis using inv1 c1 v1
      by (intro exI [of _ "(Some e1, False, None)"] exI [of _ "neighbors ?m"] exI [of _ h1]
          exI [of _ "\<lambda>i. rng s (Suc i)"]) simp
  next
    case True
    from d(7) d(9) k have "length (neighbors (maze ?s1)) - 0 < k" by (simp add: nbrsOk_def)
    from updateLoop_ok [OF k' inv1 _ this] obtain l h2 where
      u: "updateLoop k k ?s1 0 =
            Some (None, ?s1\<lparr>maze := (maze ?s1)\<lparr>neighbors := l\<rparr>, store := h2\<rparr>)"
      and inv2: "genInv n (?s1\<lparr>maze := (maze ?s1)\<lparr>neighbors := l\<rparr>, store := h2\<rparr>)"
      and r2: "\<forall>t<n. rep h2 t = rep (store ?s1) t"
      and c2: "rootCount n h2 = rootCount n (store ?s1)"
      and nj: "\<forall>e\<in>set l. \<not> joined h2 (maze ?s1) e" by auto
    let ?s2 = "s\<lparr>maze := ?m\<lparr>neighbors := l\<rparr>, store := h2, rng := (\<lambda>i. rng s (Suc i))\<rparr>"
    have e2: "?s1\<lparr>maze := (maze ?s1)\<lparr>neighbors := l\<rparr>, store := h2\<rparr> = ?s2" by simp
    note u = u [unfolded e2] and inv2 = inv2 [unfolded e2]
    show ?thesis
    proof (cases "l = []")
      case True
      with s1 ne \<open>joined (store s) ?m e1\<close> u
      have "getDisjointNeighbor k s = Some ((None, True, None), ?s2)"
        by (simp add: getDisjointNeighbor_def updateDisjointNeighbors_def)
      with inv2 c1 c2 True show ?thesis
        by (intro exI [of _ "(None, True, None)"] exI [of _ l] exI [of _ h2]
            exI [of _ "\<lambda>i. rng s (Suc i)"]) simp
    next
      case False
      then have ne2: "neighbors (maze ?s2) \<noteq> []" by simp
      from sampleNeighbor_ok [OF inv2 ne2 k'] obtain e3 h3 where
        m3: "e3 \<in> set (neighbors (maze ?s2))" and d3: "djInv n h3"
        and r3: "\<forall>t<n. rep h3 t = rep (store ?s2) t"
        and c3: "rootCount n h3 = rootCount n (store ?s2)"
        and s3: "sampleNeighbor k ?s2 =
           Some ((if joined (store ?s2) (maze ?s2) e3 then None else Some e3, None),
                 ?s2\<lparr>store := h3, rng := (\<lambda>i. rng ?s2 (Suc i))\<rparr>)" by blast
      let ?s3 = "s\<lparr>maze := ?m\<lparr>neighbors := l\<rparr>, store := h3,
                    rng := (\<lambda>i. rng s (Suc (Suc i)))\<rparr>"
      have e3: "?s2\<lparr>store := h3, rng := (\<lambda>i. rng ?s2 (Suc i))\<rparr> = ?s3" by simp
      from m3 nj have nj3: "\<not> joined h2 ?m e3" by simp
      note d2 = genInvD [OF inv2]
      from d2(7) m3 have v3: "validPair ?m e3" by (simp add: nbrsOk_def)
      from nj3 joined_same_reps [OF v3 d(9), of h3 h2] r3 have nj3': "\<not> joined h3 ?m e3" by simp
      have inv3: "genInv n ?s3" using inv2 d3 r3 by (rule genInv_store) simp_all
      from s1 ne \<open>joined (store s) ?m e1\<close> u False s3 nj3
      have "getDisjointNeighbor k s = Some ((Some e3, False, None), ?s3)"
        by (simp add: getDisjointNeighbor_def updateDisjointNeighbors_def)
      with inv3 c1 c2 c3 v3 nj3' show ?thesis
        by (intro exI [of _ "(Some e3, False, None)"] exI [of _ l] exI [of _ h3]
            exI [of _ "\<lambda>i. rng s (Suc (Suc i))"]) simp
    qed
  qed
qed


subsection \<open>Joining two cells\<close>

lemma clear_pair_nth:
  "i < length cs \<Longrightarrow>
   walls (clearWall (clearWall cs a d1) b d2 ! i) d =
     (walls (cs ! i) d \<and> (i, d) \<noteq> (a, d1) \<and> (i, d) \<noteq> (b, d2)) \<and>
   state (clearWall (clearWall cs a d1) b d2 ! i) = state (cs ! i) \<and>
   djSet (clearWall (clearWall cs a d1) b d2 ! i) = djSet (cs ! i)"
  by (simp add: clearWall_nth)

lemma validPair_cells:
  assumes "length cs = length (cells m)" and "\<forall>i<length cs. state (cs ! i) = state (cells m ! i)"
  shows "validPair (m\<lparr>cells := cs\<rparr>) e = validPair m e"
  using assms by (auto simp: validPair_def nbCell_def)

lemma join_step:
  assumes inv: "genInv n s" and v: "validPair (maze s) e"
    and nj: "\<not> joined (store s) (maze s) e" and k: "n < k"
    and b: "b = (if neighborDirection e = 2 then baseIndex e + 1 else baseIndex e + width (maze s))"
    and cs: "cs = (if neighborDirection e = 2
                   then clearWall (clearWall (cells (maze s)) (baseIndex e) 2) b 0
                   else clearWall (clearWall (cells (maze s)) (baseIndex e) 3) b 1)"
  shows "\<exists>h'. union_ds k (store s) (djSet (cs ! baseIndex e)) (djSet (cs ! b)) = Some h' \<and>
     genInv n (s\<lparr>maze := (maze s)\<lparr>cells := cs\<rparr>, store := h'\<rparr>) \<and>
     rootCount n h' < rootCount n (store s) \<and>
     length cs = length (cells (maze s)) \<and>
     (\<forall>i<n. state (cs ! i) = state (cells (maze s) ! i))"
proof -
  let ?m = "maze s" and ?a = "baseIndex e" and ?h = "store s"
  note d = genInvD [OF inv]
  from b have bn: "b = nbCell ?m e" by (simp add: nbCell_def)
  from validPair_less [OF v] d(9) bn have a: "?a < n" and bl: "b < n" by simp_all
  from v consider
    (right) "neighborDirection e = 2" "?a mod width ?m < width ?m - 1" "?a + 1 < length (cells ?m)"
    | (down) "neighborDirection e = 3" "?a + width ?m < length (cells ?m)"
    by (auto simp: validPair_def)
  then obtain d1 d2 where
    csd: "cs = clearWall (clearWall (cells ?m) ?a d1) b d2"
    and pas: "passage (?m\<lparr>cells := cs\<rparr>) = addEdge (passage ?m) ?a b"
    and sym: "wallsSymmetric (?m\<lparr>cells := cs\<rparr>)"
  proof cases
    case right
    with b cs have "cs = clearWall (clearWall (cells ?m) ?a 2) b 0" "b = ?a + 1" by simp_all
    with passage_clear_right [OF right(2,3)] wallsSymmetric_clear_right [OF d(4), of ?a] that
    show ?thesis by simp
  next
    case down
    with b cs have "cs = clearWall (clearWall (cells ?m) ?a 3) b 1" "b = ?a + width ?m" by simp_all
    with passage_clear_down [OF down(2)] wallsSymmetric_clear_down [OF d(4), of ?a] that
    show ?thesis by simp
  qed
  have len: "length cs = length (cells ?m)" by (simp add: csd)
  have nth: "walls (cs ! i) d = (walls (cells ?m ! i) d \<and> (i, d) \<noteq> (?a, d1) \<and> (i, d) \<noteq> (b, d2))"
    "state (cs ! i) = state (cells ?m ! i)" "djSet (cs ! i) = djSet (cells ?m ! i)"
    if "i < n" for i d
    using that d(9) clear_pair_nth [of i "cells ?m" ?a d1 b d2 d] by (simp_all add: csd)
  from nth(3) [OF a] nth(3) [OF bl] d(3) a bl
  have dj: "djSet (cs ! ?a) = ?a" "djSet (cs ! b) = b" by simp_all
  from nj bn have ne: "rep ?h ?a \<noteq> rep ?h b" by (simp add: joined_def)
  from union_ds_same [OF d(2) a bl ne k] obtain h' where
    u: "union_ds k ?h ?a b = Some h'" and dj': "djInv n h'"
    and cnt: "rootCount n h' < rootCount n ?h"
    and reps: "\<forall>x<n. \<forall>y<n. rep h' x = rep h' y \<longleftrightarrow>
        rep ?h x = rep ?h y \<or>
        (rep ?h x = rep ?h ?a \<or> rep ?h x = rep ?h b) \<and> (rep ?h y = rep ?h ?a \<or> rep ?h y = rep ?h b)"
    by blast
  let ?m' = "?m\<lparr>cells := cs\<rparr>"
  have conn: "rep ?h x = rep ?h y \<longleftrightarrow> (passage ?m)\<^sup>*\<^sup>* x y" if "x < n" "y < n" for x y
    using d(5) d(9) that by (simp add: connOk_def)
  have "connOk h' ?m'"
    unfolding connOk_def
  proof (intro allI impI)
    fix x y assume "x < length (cells ?m')" "y < length (cells ?m')"
    with len d(9) have x: "x < n" and y: "y < n" by simp_all
    have "(passage ?m')\<^sup>*\<^sup>* x y \<longleftrightarrow>
        rep ?h x = rep ?h y \<or> rep ?h x = rep ?h ?a \<and> rep ?h b = rep ?h y \<or>
        rep ?h x = rep ?h b \<and> rep ?h ?a = rep ?h y"
      unfolding pas conn_addEdge [OF symp_passage]
      using conn [OF x y] conn [OF x a] conn [OF bl y] conn [OF x bl] conn [OF a y] by simp
    with reps x y show "rep h' x = rep h' y \<longleftrightarrow> (passage ?m')\<^sup>*\<^sup>* x y" by auto
  qed
  moreover have "forest (passage ?m')"
    unfolding pas using d(6) symp_passage
  proof (rule forest_addEdge)
    show "\<not> (passage ?m)\<^sup>*\<^sup>* ?a b" using conn [OF a bl] ne by simp
  qed
  moreover have "nbrsOk h' ?m'"
    unfolding nbrsOk_def
  proof (intro conjI allI impI ballI)
    show "length (neighbors ?m') \<le> 2 * length (cells ?m')"
      using d(7) len by (simp add: nbrsOk_def)
  next
    fix x assume "x \<in> set (neighbors ?m')"
    with d(7) have "validPair ?m x" by (simp add: nbrsOk_def)
    then show "validPair ?m' x" using len nth(2) d(9) by (simp add: validPair_cells)
  next
    fix x assume "validPair ?m' x"
    then have vx: "validPair ?m x" using len nth(2) d(9) by (simp add: validPair_cells)
    with d(7) have "x \<in> set (neighbors ?m) \<or> joined ?h ?m x" by (simp add: nbrsOk_def)
    moreover from validPair_less [OF vx] d(9) have "baseIndex x < n" "nbCell ?m x < n" by simp_all
    with reps have "joined ?h ?m x \<longrightarrow> joined h' ?m x" by (simp add: joined_def)
    moreover have "joined h' ?m' x = joined h' ?m x" by (simp add: joined_def nbCell_def)
    ultimately show "x \<in> set (neighbors ?m') \<or> joined h' ?m' x" by auto
  qed
  moreover have "excludedWalled ?m'"
    unfolding excludedWalled_def
  proof (intro allI impI)
    fix i dd assume i: "i < length (cells ?m')" and st: "state (cells ?m' ! i) = 2" and "dd < (4::nat)"
    from i len d(9) have il: "i < n" by simp
    from st nth(2) [OF il] have st': "state (cells ?m ! i) = 2" by simp
    with v bn have "i \<noteq> ?a" "i \<noteq> b" by (auto simp: validPair_def)
    moreover from d(8) st' il d(9) \<open>dd < 4\<close> have "walls (cells ?m ! i) dd"
      by (simp add: excludedWalled_def)
    ultimately show "walls (cells ?m' ! i) dd" using nth(1) [OF il, of dd] by simp
  qed
  moreover have "gridDims n ?m'" using d(1) len by (simp add: gridDims_def)
  moreover have "\<forall>i<n. djSet (cells ?m' ! i) = i" using nth(3) d(3) by simp
  ultimately have "genInv n (s\<lparr>maze := ?m', store := h'\<rparr>)"
    using dj' sym by (intro genInvI) simp_all
  with u dj cnt len nth(2) show ?thesis by (intro exI [of _ h']) simp
qed


subsection \<open>The loop and the whole generation\<close>

text \<open>What generation leaves as it is: the dimensions, the states of the cells, the endpoints.\<close>

definition sameShape :: "GridMaze \<Rightarrow> GridMaze \<Rightarrow> bool" where
  "sameShape m m' \<longleftrightarrow>
     width m' = width m \<and> height m' = height m \<and> length (cells m') = length (cells m) \<and>
     (\<forall>i<length (cells m). state (cells m' ! i) = state (cells m ! i)) \<and>
     startCellIndex m' = startCellIndex m \<and> endCellIndex m' = endCellIndex m \<and>
     randomSeed m' = randomSeed m"

lemma sameShape_refl: "sameShape m m"
  by (simp add: sameShape_def)

lemma sameShape_trans: "sameShape m m1 \<Longrightarrow> sameShape m1 m2 \<Longrightarrow> sameShape m m2"
  by (simp add: sameShape_def)

lemma generateLoop_ok:
  assumes k: "2 * n < k"
  shows "genInv n s \<Longrightarrow> rootCount n (store s) < f \<Longrightarrow>
     \<exists>s'. generateLoop k f s = Some (None, s') \<and> genInv n s' \<and>
          neighbors (maze s') = [] \<and> sameShape (maze s) (maze s')"
proof (induction f arbitrary: s)
  case 0
  then show ?case by simp
next
  case (Suc f)
  note inv = Suc.prems(1)
  from k have k': "n < k" by simp
  show ?case
  proof (cases "neighbors (maze s) = []")
    case True
    then have "generateLoop k (Suc f) s = Some (None, s)" by simp
    with inv True show ?thesis by (auto simp: sameShape_refl)
  next
    case False
    from getDisjointNeighbor_ok [OF inv False k] obtain out l h1 r1 where
      g: "getDisjointNeighbor k s =
            Some (out, s\<lparr>maze := (maze s)\<lparr>neighbors := l\<rparr>, store := h1, rng := r1\<rparr>)"
      and inv1: "genInv n (s\<lparr>maze := (maze s)\<lparr>neighbors := l\<rparr>, store := h1, rng := r1\<rparr>)"
      and c1: "rootCount n h1 = rootCount n (store s)"
      and out: "out = (None, True, None) \<and> l = [] \<or>
          (\<exists>e. out = (Some e, False, None) \<and> validPair (maze s) e \<and> \<not> joined h1 (maze s) e)"
      by blast
    let ?s1 = "s\<lparr>maze := (maze s)\<lparr>neighbors := l\<rparr>, store := h1, rng := r1\<rparr>"
    have sh1: "sameShape (maze s) (maze ?s1)" by (simp add: sameShape_def)
    from out show ?thesis
    proof
      assume "out = (None, True, None) \<and> l = []"
      with g False have "generateLoop k (Suc f) s = Some (None, ?s1)" by simp
      with inv1 sh1 \<open>out = (None, True, None) \<and> l = []\<close> show ?thesis
        by (intro exI [of _ ?s1]) simp
    next
      assume "\<exists>e. out = (Some e, False, None) \<and> validPair (maze s) e \<and> \<not> joined h1 (maze s) e"
      then obtain e where o: "out = (Some e, False, None)" and v: "validPair (maze s) e"
        and nj: "\<not> joined h1 (maze s) e" by blast
      define b where "b = (if neighborDirection e = 2 then baseIndex e + 1
                           else baseIndex e + width (maze ?s1))"
      define cs where "cs = (if neighborDirection e = 2
                   then clearWall (clearWall (cells (maze ?s1)) (baseIndex e) 2) b 0
                   else clearWall (clearWall (cells (maze ?s1)) (baseIndex e) 3) b 1)"
      from v have v1: "validPair (maze ?s1) e" by simp
      from nj have nj1: "\<not> joined (store ?s1) (maze ?s1) e" by simp
      from join_step [OF inv1 v1 nj1 k' b_def cs_def] obtain h2 where
        u: "union_ds k (store ?s1) (djSet (cs ! baseIndex e)) (djSet (cs ! b)) = Some h2"
        and inv2: "genInv n (?s1\<lparr>maze := (maze ?s1)\<lparr>cells := cs\<rparr>, store := h2\<rparr>)"
        and c2: "rootCount n h2 < rootCount n (store ?s1)"
        and len: "length cs = length (cells (maze ?s1))"
        and st: "\<forall>i<n. state (cs ! i) = state (cells (maze ?s1) ! i)" by blast
      let ?s2 = "?s1\<lparr>maze := (maze ?s1)\<lparr>cells := cs\<rparr>, store := h2\<rparr>"
      have step: "generateLoop k (Suc f) s = generateLoop k f ?s2"
        using g False o u unfolding cs_def b_def by (simp add: Let_def)
      from c1 c2 Suc.prems(2) have "rootCount n (store ?s2) < f" by simp
      from Suc.IH [OF inv2 this] obtain s' where
        r: "generateLoop k f ?s2 = Some (None, s')" and inv': "genInv n s'"
        and e': "neighbors (maze s') = []" and sh': "sameShape (maze ?s2) (maze s')" by blast
      from genInvD(9) [OF inv] len st have "sameShape (maze s) (maze ?s2)"
        by (simp add: sameShape_def)
      from sameShape_trans [OF this sh'] step r inv' e' show ?thesis by auto
    qed
  qed
qed

text \<open>What \<^verbatim>\<open>RegenerateFromSeed\<close> establishes, from the maze \<open>m\<close> to the maze \<open>m'\<close>.\<close>

definition generatedFrom :: "GridMaze \<Rightarrow> int \<Rightarrow> GridMaze \<Rightarrow> bool" where
  "generatedFrom m sd m' \<longleftrightarrow>
     width m' = width m \<and> height m' = height m \<and> length (cells m') = length (cells m) \<and>
     (\<forall>i<length (cells m). state (cells m' ! i) = state (cells m ! i)) \<and>
     randomSeed m' = sd \<and> neighbors m' = [] \<and>
     startCellIndex m' = (if startCellIndex m = - 1 then 0 else startCellIndex m) \<and>
     endCellIndex m' =
       (if startCellIndex m = - 1 then int (length (cells m)) - 1 else endCellIndex m) \<and>
     wallsSymmetric m' \<and> forest (passage m') \<and> excludedWalled m' \<and>
     (\<forall>e. validPair m' e \<longrightarrow> (passage m')\<^sup>*\<^sup>* (baseIndex e) (nbCell m' e))"

lemma RegenerateFromSeed_ok:
  assumes v: "validGrid m" and k: "2 * (width m * height m) < k"
  shows "\<exists>m'. RegenerateFromSeed k src sd m = Some (Inr m') \<and> generatedFrom m sd m'"
proof -
  let ?n = "length (cells m)"
  from v have n: "?n = width m * height m" by (simp add: validGrid_def)
  obtain h cs where ic: "initCells [] (cells m) = (h, cs)" by (cases "initCells [] (cells m)")
  from genInv_init [OF v ic, of sd "src sd"] obtain l where
    idn: "initDisjointNeighbors (m\<lparr>cells := cs\<rparr>) = Inr (m\<lparr>cells := cs, neighbors := l\<rparr>)"
    and inv0: "genInv ?n \<lparr>maze = m\<lparr>cells := cs, neighbors := l, randomSeed := sd\<rparr>,
                 store = h, rng = src sd\<rparr>"
    and rc: "rootCount ?n h = ?n" and lc: "length cs = ?n"
    and st0: "\<forall>i<?n. state (cs ! i) = state (cells m ! i)" by blast
  let ?s0 = "\<lparr>maze = m\<lparr>cells := cs, neighbors := l, randomSeed := sd\<rparr>, store = h, rng = src sd\<rparr>"
  from k n have k': "2 * ?n < k" by simp
  from rc k' have "rootCount ?n (store ?s0) < k" by simp
  from generateLoop_ok [OF k' inv0 this] obtain s where
    gl: "generateLoop k k ?s0 = Some (None, s)" and inv: "genInv ?n s"
    and e: "neighbors (maze s) = []" and sh: "sameShape (maze ?s0) (maze s)" by blast
  let ?m' = "if startCellIndex (maze s) = - 1
             then (maze s)\<lparr>startCellIndex := 0, endCellIndex := int (length (cells (maze s))) - 1\<rparr>
             else maze s"
  have r: "RegenerateFromSeed k src sd m = Some (Inr ?m')"
    using ic idn gl by (simp add: RegenerateFromSeed_def)
  note d = genInvD [OF inv]
  have cm: "cells ?m' = cells (maze s)" "width ?m' = width (maze s)"
    "neighbors ?m' = neighbors (maze s)" "randomSeed ?m' = randomSeed (maze s)"
    "height ?m' = height (maze s)"
    by simp_all
  have p: "passage ?m' = passage (maze s)"
    by (simp add: passage_def rightOpen_def downOpen_def fun_eq_iff)
  have vp: "validPair ?m' x = validPair (maze s) x" "nbCell ?m' x = nbCell (maze s) x" for x
    by (simp_all add: validPair_def nbCell_def)
  have "(passage (maze s))\<^sup>*\<^sup>* (baseIndex x) (nbCell (maze s) x)" if vx: "validPair (maze s) x" for x
  proof -
    from d(7) e vx have "joined (store s) (maze s) x" by (simp add: nbrsOk_def)
    moreover from validPair_less [OF vx] have "baseIndex x < length (cells (maze s))"
      "nbCell (maze s) x < length (cells (maze s))" by simp_all
    ultimately show ?thesis using d(5) by (simp add: connOk_def joined_def)
  qed
  then have comp: "\<forall>x. validPair ?m' x \<longrightarrow> (passage ?m')\<^sup>*\<^sup>* (baseIndex x) (nbCell ?m' x)"
    unfolding p vp by blast
  have ws: "wallsSymmetric ?m'" using d(4) by (simp add: wallsSymmetric_def)
  have ew: "excludedWalled ?m'" using d(8) by (simp add: excludedWalled_def)
  have fo: "forest (passage ?m')" using d(6) unfolding p .
  from sh lc st0 have shape: "width (maze s) = width m" "height (maze s) = height m"
    "length (cells (maze s)) = ?n" "\<forall>i<?n. state (cells (maze s) ! i) = state (cells m ! i)"
    "startCellIndex (maze s) = startCellIndex m" "endCellIndex (maze s) = endCellIndex m"
    "randomSeed (maze s) = sd"
    by (simp_all add: sameShape_def)
  have "generatedFrom m sd ?m'"
    unfolding generatedFrom_def
    using comp ws ew fo shape e by (simp add: cm del: One_nat_def)
  with r show ?thesis by blast
qed

section \<open>Properties of generation\<close>

lemma validPair_right:
  assumes "1 \<le> width m" and "0 < i" and "i < length (cells m)" and "i mod width m \<noteq> 0"
    and "\<forall>j<length (cells m). state (cells m ! j) \<noteq> 2"
  shows "validPair m \<lparr>baseIndex = i - 1, neighborDirection = 2\<rparr>"
proof -
  from assms(2) have s: "Suc (i - 1) = i" by simp
  have "Suc (i - 1) mod width m =
      (if Suc ((i - 1) mod width m) = width m then 0 else Suc ((i - 1) mod width m))"
    by (rule mod_Suc)
  with s assms(4) have "Suc ((i - 1) mod width m) \<noteq> width m" by auto
  moreover from assms(1) have "(i - 1) mod width m < width m" by simp
  ultimately have "(i - 1) mod width m < width m - 1" by simp
  with assms s show ?thesis by (simp add: validPair_def nbCell_def)
qed

lemma validPair_down:
  assumes "width m \<le> i" and "i < length (cells m)"
    and "\<forall>j<length (cells m). state (cells m ! j) \<noteq> 2"
  shows "validPair m \<lparr>baseIndex = i - width m, neighborDirection = 3\<rparr>"
  using assms by (simp add: validPair_def nbCell_def)

lemma grid_connected:
  assumes w: "1 \<le> width m"
    and ne: "\<forall>j<length (cells m). state (cells m ! j) \<noteq> 2"
    and comp: "\<forall>e. validPair m e \<longrightarrow> (passage m)\<^sup>*\<^sup>* (baseIndex e) (nbCell m e)"
  shows "i < length (cells m) \<Longrightarrow> (passage m)\<^sup>*\<^sup>* 0 i"
proof (induction i rule: less_induct)
  case (less i)
  show ?case
  proof (cases "i = 0")
    case True
    then show ?thesis by simp
  next
    case False
    then have pos: "0 < i" by simp
    show ?thesis
    proof (cases "i mod width m = 0")
      case False
      from validPair_right [OF w pos less.prems False ne] comp
      have "(passage m)\<^sup>*\<^sup>* (i - 1) i" using pos by (fastforce simp: nbCell_def)
      moreover from less.IH [of "i - 1"] pos less.prems have "(passage m)\<^sup>*\<^sup>* 0 (i - 1)" by simp
      ultimately show ?thesis by simp
    next
      case True
      then have "width m dvd i" by auto
      then have wi: "width m \<le> i" using pos by (rule dvd_imp_le)
      from validPair_down [OF wi less.prems ne] comp
      have "(passage m)\<^sup>*\<^sup>* (i - width m) i" using wi by (fastforce simp: nbCell_def)
      moreover from less.IH [of "i - width m"] w wi less.prems
      have "(passage m)\<^sup>*\<^sup>* 0 (i - width m)" by simp
      ultimately show ?thesis by simp
    qed
  qed
qed

lemma spanningTree_generated:
  assumes w: "1 \<le> width m"
    and ne: "\<forall>j<length (cells m). state (cells m ! j) \<noteq> 2"
    and comp: "\<forall>e. validPair m e \<longrightarrow> (passage m)\<^sup>*\<^sup>* (baseIndex e) (nbCell m e)"
    and f: "forest (passage m)"
  shows "spanningTree m"
  unfolding spanningTree_def
proof (intro allI impI)
  fix u v assume u: "u < length (cells m)" and v: "v < length (cells m)"
  note c = grid_connected [OF w ne comp]
  have "(passage m)\<^sup>*\<^sup>* u 0" using conn_sym [OF symp_passage c [OF u]] .
  with c [OF v] have "(passage m)\<^sup>*\<^sup>* u v" by simp
  then obtain p where p: "simplePath (passage m) u v p" by (blast dest: conn_simplePath)
  show "\<exists>!p. simplePath (passage m) u v p"
  proof (rule ex1I [of _ p])
    show "simplePath (passage m) u v p" by (rule p)
  next
    fix q assume "simplePath (passage m) u v q"
    with p f show "q = p" unfolding forest_def by blast
  qed
qed

text \<open>
  Claim C1.  On a maze of valid dimensions with no excluded cell, \<^verbatim>\<open>RegenerateFromSeed\<close>
  returns without error, whatever the seed and the random source, as soon as the fuel
  exceeds twice the number of cells; in the maze it returns, every two cells are joined by
  exactly one simple path of passages.
\<close>

theorem regenerate_spanning_tree:
  assumes "validGrid m" and "\<forall>i<length (cells m). state (cells m ! i) \<noteq> 2"
    and "2 * (width m * height m) < k"
  shows "\<exists>m'. RegenerateFromSeed k src sd m = Some (Inr m') \<and> spanningTree m'"
proof -
  from RegenerateFromSeed_ok [OF assms(1,3), of src sd] obtain m' where
    r: "RegenerateFromSeed k src sd m = Some (Inr m')" and g: "generatedFrom m sd m'" by blast
  from g assms(1) have w: "1 \<le> width m'" by (simp add: generatedFrom_def validGrid_def)
  from g assms(2) have ne: "\<forall>j<length (cells m'). state (cells m' ! j) \<noteq> 2"
    by (simp add: generatedFrom_def)
  from g have "\<forall>e. validPair m' e \<longrightarrow> (passage m')\<^sup>*\<^sup>* (baseIndex e) (nbCell m' e)"
    and "forest (passage m')"
    by (simp_all add: generatedFrom_def)
  from spanningTree_generated [OF w ne this] r show ?thesis by blast
qed

definition blank22 :: GridMaze where
  "blank22 = gridOf 2 2 [zeroCell, zeroCell, zeroCell, zeroCell]"

lemma validGrid_blank22: "validGrid blank22"
  by (simp add: validGrid_def blank22_def gridOf_def)

theorem regenerate_spanning_tree_witness:
  "validGrid blank22 \<and> map state (cells blank22) = [0, 0, 0, 0] \<and>
   (\<exists>m'. RegenerateFromSeed 9 (\<lambda>s i. 0) 1 blank22 = Some (Inr m') \<and> spanningTree m')"
proof -
  have s: "map state (cells blank22) = [0, 0, 0, 0]"
    by (simp add: blank22_def gridOf_def zeroCell_def)
  have "\<forall>i<length (cells blank22). state (cells blank22 ! i) \<noteq> 2"
    by (simp add: blank22_def gridOf_def zeroCell_def nth_Cons split: nat.splits)
  moreover have "2 * (width blank22 * height blank22) < 9"
    by (simp add: blank22_def gridOf_def)
  ultimately show ?thesis
    using regenerate_spanning_tree [OF validGrid_blank22, of 9 "\<lambda>s i. 0" 1] s validGrid_blank22
    by blast
qed

text \<open>
  Claim C10.  \<^verbatim>\<open>RegenerateFromSeed\<close> returns a maze with the cells' states as they were:
  a cell marked as on the solution path (state 1) before the call is still marked after it,
  and so are the normal and the excluded cells.
\<close>

theorem regenerate_keeps_states:
  assumes "validGrid m" and "2 * (width m * height m) < k"
  shows "\<exists>m'. RegenerateFromSeed k src sd m = Some (Inr m') \<and>
           map state (cells m') = map state (cells m)"
proof -
  from RegenerateFromSeed_ok [OF assms, of src sd] obtain m' where
    r: "RegenerateFromSeed k src sd m = Some (Inr m')" and g: "generatedFrom m sd m'" by blast
  from g have "length (cells m') = length (cells m)"
    "\<forall>i<length (cells m). state (cells m' ! i) = state (cells m ! i)"
    by (simp_all add: generatedFrom_def)
  then have "map state (cells m') = map state (cells m)"
    by (simp add: list_eq_iff_nth_eq)
  with r show ?thesis by blast
qed

text \<open>A 2 by 2 maze whose solution path through the cells 0, 1 and 3 is marked.\<close>

definition solved22 :: GridMaze where
  "solved22 = gridOf 2 2
     [cellOf [True, True, False, True] 1, cellOf [False, True, True, False] 1,
      cellOf [True, True, False, True] 0, cellOf [False, False, True, True] 1]"

theorem regenerate_keeps_states_witness:
  "validGrid solved22 \<and> 2 * (width solved22 * height solved22) < 9 \<and>
   (\<exists>m'. RegenerateFromSeed 9 (\<lambda>s i. 0) 1 solved22 = Some (Inr m') \<and>
      map state (cells m') = [1, 1, 0, 1])"
proof -
  have v: "validGrid solved22" by (simp add: validGrid_def solved22_def gridOf_def)
  have k: "2 * (width solved22 * height solved22) < 9" by (simp add: solved22_def gridOf_def)
  have "map state (cells solved22) = [1, 1, 0, 1]"
    by (simp add: solved22_def gridOf_def cellOf_def)
  with regenerate_keeps_states [OF v k, of "\<lambda>s i. 0" 1] v k show ?thesis by simp
qed

text \<open>
  Claim C6.  After \<^verbatim>\<open>RegenerateFromSeed\<close> the wall between two neighboring cells is set
  on one of them exactly when it is set on the other: the right wall of a cell is the left
  wall of the next cell of its row, the bottom wall of a cell is the top wall of the cell
  below it.  \<^verbatim>\<open>ErodeWalls\<close> keeps this, so it holds after any number of calls that follow
  generation.
\<close>

theorem walls_stay_symmetric:
  "(validGrid m \<and> 2 * (width m * height m) < k \<longrightarrow>
      (\<exists>m'. RegenerateFromSeed k src sd m = Some (Inr m') \<and>
         (\<forall>j. wallsSymmetric ((ErodeWalls ^^ j) m')))) \<and>
   (wallsSymmetric g \<longrightarrow> wallsSymmetric (ErodeWalls g))"
proof (intro conjI impI)
  assume a: "validGrid m \<and> 2 * (width m * height m) < k"
  then have v: "validGrid m" and k: "2 * (width m * height m) < k" by simp_all
  from RegenerateFromSeed_ok [OF v k, of src sd] obtain m' where
    r: "RegenerateFromSeed k src sd m = Some (Inr m')" and g: "generatedFrom m sd m'" by blast
  from g have s: "wallsSymmetric m'" by (simp add: generatedFrom_def)
  have "wallsSymmetric ((ErodeWalls ^^ j) m')" for j
    by (induction j) (simp_all add: s ErodeWalls_symmetric)
  with r show "\<exists>m'. RegenerateFromSeed k src sd m = Some (Inr m') \<and>
         (\<forall>j. wallsSymmetric ((ErodeWalls ^^ j) m'))" by blast
next
  assume "wallsSymmetric g"
  then show "wallsSymmetric (ErodeWalls g)" by (rule ErodeWalls_symmetric)
qed

lemma wallsSymmetric_code:
  "wallsSymmetric m \<longleftrightarrow>
     (\<forall>i\<in>set [0..<length (cells m)].
        (i + 1 < length (cells m) \<and> i mod width m < width m - 1 \<longrightarrow>
           walls (cells m ! i) 2 = walls (cells m ! (i + 1)) 0) \<and>
        (i + width m < length (cells m) \<longrightarrow>
           walls (cells m ! i) 3 = walls (cells m ! (i + width m)) 1))"
  unfolding wallsSymmetric_def by auto

lemma wallsSymmetric_stubMaze: "wallsSymmetric stubMaze"
  unfolding wallsSymmetric_code by code_simp

theorem walls_stay_symmetric_witness:
  "validGrid blank22 \<and> 2 * (width blank22 * height blank22) < 9 \<and>
   (\<exists>m'. RegenerateFromSeed 9 (\<lambda>s i. 0) 1 blank22 = Some (Inr m') \<and>
      wallsSymmetric ((ErodeWalls ^^ 2) m')) \<and>
   wallsSymmetric stubMaze \<and> wallsSymmetric (ErodeWalls stubMaze)"
proof -
  have k: "2 * (width blank22 * height blank22) < 9" by (simp add: blank22_def gridOf_def)
  from walls_stay_symmetric [of blank22 9 "\<lambda>s i. 0" 1 stubMaze] validGrid_blank22 k
    wallsSymmetric_stubMaze
  show ?thesis by blast
qed

section \<open>The invariant of the solver\<close>

text \<open>The cell that a move in the direction \<open>d\<close> leads to, and when the solver may make it.\<close>

definition dstOf :: "GridMaze \<Rightarrow> nat \<Rightarrow> nat \<Rightarrow> nat" where
  "dstOf m cur d =
     (if d = 0 then cur - 1 else if d = 1 then cur - width m
      else if d = 2 then cur + 1 else cur + width m)"

definition canMove :: "GridMaze \<Rightarrow> nat \<Rightarrow> nat \<Rightarrow> bool" where
  "canMove m cur d \<longleftrightarrow>
     d \<le> 3 \<and> \<not> walls (cells m ! cur) d \<and>
     (d = 0 \<longrightarrow> cur mod width m \<noteq> 0) \<and> (d = 1 \<longrightarrow> cur div width m \<noteq> 0) \<and>
     (d = 2 \<longrightarrow> cur mod width m \<noteq> width m - 1) \<and>
     (d = 3 \<longrightarrow> cur div width m \<noteq> height m - 1)"

definition stepOpen :: "GridMaze \<Rightarrow> nat \<Rightarrow> nat \<Rightarrow> bool" where
  "stepOpen m p i \<longleftrightarrow> p < length (cells m) \<and> (\<exists>d. canMove m p d \<and> i = dstOf m p d)"

lemma canMove_dst:
  assumes gd: "gridDims n m" and cur: "cur < n" and cm: "canMove m cur d"
  shows "dstOf m cur d < n"
    and "dstOf m cur d mod width m =
           (if d = 0 then cur mod width m - 1 else if d = 2 then cur mod width m + 1
            else cur mod width m)"
    and "dstOf m cur d div width m =
           (if d = 1 then cur div width m - 1 else if d = 3 then cur div width m + 1
            else cur div width m)"
proof -
  define w q r where "w = width m" and "q = cur div width m" and "r = cur mod width m"
  from gd have w: "1 \<le> w" and n: "w * height m = n" by (simp_all add: gridDims_def w_def)
  have c: "cur = q * w + r" by (simp add: q_def r_def w_def)
  from w have r: "r < w" by (simp add: r_def w_def)
  from cur n have "cur < height m * w" by (simp add: mult.commute)
  then have q: "q < height m" unfolding q_def w_def by (rule less_mult_imp_div_less)
  have dm: "(a * w + b) mod w = b \<and> (a * w + b) div w = a" if "b < w" for a b
    using that by simp
  from cm have "d = 0 \<or> d = 1 \<or> d = 2 \<or> d = 3" by (auto simp: canMove_def)
  then consider (left) "d = 0" "r \<noteq> 0" | (up) "d = 1" "q \<noteq> 0"
    | (right) "d = 2" "r \<noteq> w - 1" | (down) "d = 3" "q \<noteq> height m - 1"
    using cm by (auto simp: canMove_def q_def r_def w_def)
  then have "dstOf m cur d < n \<and>
     dstOf m cur d mod w = (if d = 0 then r - 1 else if d = 2 then r + 1 else r) \<and>
     dstOf m cur d div w = (if d = 1 then q - 1 else if d = 3 then q + 1 else q)"
  proof cases
    case left
    then have e: "dstOf m cur d = q * w + (r - 1)" using c by (simp add: dstOf_def)
    from left r have "r - 1 < w" by simp
    from dm [OF this, of q] e left cur c show ?thesis by simp
  next
    case up
    then have "1 \<le> q" by simp
    then have qw: "q * w = (q - 1) * w + w" by (simp add: algebra_simps)
    with up c have e: "dstOf m cur d = (q - 1) * w + r"
      by (simp add: dstOf_def w_def)
    from qw c cur have "(q - 1) * w + r < n" by linarith
    with dm [OF r, of "q - 1"] e up show ?thesis by simp
  next
    case right
    then have e: "dstOf m cur d = q * w + (r + 1)" using c by (simp add: dstOf_def)
    from right r have r1: "r + 1 < w" by simp
    from cell_index_less [OF q r1] n have "q * w + (r + 1) < n" by simp
    with dm [OF r1, of q] e right show ?thesis by simp
  next
    case down
    then have e: "dstOf m cur d = (q + 1) * w + r"
      using c by (simp add: dstOf_def w_def algebra_simps)
    from down q have q1: "q + 1 < height m" by simp
    from cell_index_less [OF q1 r] n have "(q + 1) * w + r < n" by simp
    with dm [OF r, of "q + 1"] e down show ?thesis by simp
  qed
  then show "dstOf m cur d < n"
    and "dstOf m cur d mod width m =
           (if d = 0 then cur mod width m - 1 else if d = 2 then cur mod width m + 1
            else cur mod width m)"
    and "dstOf m cur d div width m =
           (if d = 1 then cur div width m - 1 else if d = 3 then cur div width m + 1
            else cur div width m)"
    unfolding w_def q_def r_def by simp_all
qed

lemma isReachableAndUnvisited_eq:
  assumes gd: "gridDims n m" and cur: "cur < n" and d: "d \<le> 3"
    and col: "col = cur mod width m" and row: "row = cur div width m" and lv: "length vis = n"
  shows "isReachableAndUnvisited m cur col row d vis =
     Inr (if canMove m cur d \<and> \<not> vis ! dstOf m cur d then Some (dstOf m cur d) else None)"
proof (cases "canMove m cur d")
  case False
  from gd have n: "length (cells m) = n" by (simp add: gridDims_def)
  from d consider "d = 0" | "d = 1" | "d = 2" | "d = 3" by linarith
  then have "isReachableAndUnvisited m cur col row d vis = Inr None"
  proof cases
    case 1
    with False have "walls (cells m ! cur) 0 \<or> col = 0" by (simp add: canMove_def col)
    with 1 cur n show ?thesis by (auto simp: isReachableAndUnvisited_def)
  next
    case 2
    with False have "walls (cells m ! cur) 1 \<or> row = 0" by (simp add: canMove_def row)
    with 2 cur n show ?thesis by (auto simp: isReachableAndUnvisited_def)
  next
    case 3
    with False have "walls (cells m ! cur) 2 \<or> col = width m - 1" by (simp add: canMove_def col)
    with 3 cur n show ?thesis by (auto simp: isReachableAndUnvisited_def)
  next
    case 4
    with False have "walls (cells m ! cur) 3 \<or> row = height m - 1" by (simp add: canMove_def row)
    with 4 cur n show ?thesis by (auto simp: isReachableAndUnvisited_def)
  qed
  with False show ?thesis by simp
next
  case True
  from canMove_dst(1) [OF gd cur True] have dl: "dstOf m cur d < n" .
  from gd have n: "length (cells m) = n" by (simp add: gridDims_def)
  from True have nw: "\<not> walls (cells m ! cur) d" by (simp add: canMove_def)
  from d consider "d = 0" | "d = 1" | "d = 2" | "d = 3" by linarith
  then have "isReachableAndUnvisited m cur col row d vis =
     (if vis ! dstOf m cur d then Inr None else Inr (Some (dstOf m cur d)))"
  proof cases
    case 1
    with True have c: "col \<noteq> 0" by (simp add: canMove_def col)
    then have "cur \<noteq> 0" using col by (cases cur) auto
    then have z: "\<not> cur < 1" by simp
    from dl 1 have e: "dstOf m cur d = cur - 1" "\<not> length vis \<le> cur - 1"
      by (simp_all add: dstOf_def lv)
    from 1 nw have nw0: "\<not> walls (cells m ! cur) 0" by simp
    from cur n have ci: "\<not> length (cells m) \<le> cur" by simp
    show ?thesis
      unfolding 1 isReachableAndUnvisited_def
      using c z e(2) nw0 ci by (simp add: dstOf_def)
  next
    case 2
    with True have c: "row \<noteq> 0" by (simp add: canMove_def row)
    then have z: "\<not> cur < width m" using row by auto
    from dl 2 have e: "dstOf m cur d = cur - width m" "\<not> length vis \<le> cur - width m"
      by (simp_all add: dstOf_def lv)
    from 2 nw have nw0: "\<not> walls (cells m ! cur) 1" by simp
    from cur n have ci: "\<not> length (cells m) \<le> cur" by simp
    show ?thesis
      unfolding 2 isReachableAndUnvisited_def
      using c z e(2) nw0 ci by (simp add: dstOf_def)
  next
    case 3
    with True have c: "col \<noteq> width m - 1" by (simp add: canMove_def col)
    from dl 3 have e: "dstOf m cur d = cur + 1" "\<not> length vis \<le> cur + 1"
      by (simp_all add: dstOf_def lv)
    from 3 nw have nw0: "\<not> walls (cells m ! cur) 2" by simp
    from cur n have ci: "\<not> length (cells m) \<le> cur" by simp
    show ?thesis
      unfolding 3 isReachableAndUnvisited_def
      using c e(2) nw0 ci by (simp add: dstOf_def)
  next
    case 4
    with True have c: "row \<noteq> height m - 1" by (simp add: canMove_def row)
    from dl 4 have e: "dstOf m cur d = cur + width m" "\<not> length vis \<le> cur + width m"
      by (simp_all add: dstOf_def lv)
    from 4 nw have nw0: "\<not> walls (cells m ! cur) 3" by simp
    from cur n have ci: "\<not> length (cells m) \<le> cur" by simp
    show ?thesis
      unfolding 4 isReachableAndUnvisited_def
      using c e(2) nw0 ci by (simp add: dstOf_def)
  qed
  with True show ?thesis by simp
qed

lemma canMove_dst_distinct:
  assumes gd: "gridDims n m" and cur: "cur < n" and "canMove m cur d" and "canMove m cur d'"
    and "d \<noteq> d'"
  shows "dstOf m cur d \<noteq> dstOf m cur d'"
proof
  assume e: "dstOf m cur d = dstOf m cur d'"
  from canMove_dst(2,3) [OF gd cur assms(3)] canMove_dst(2,3) [OF gd cur assms(4)] e
  have "(if d = 0 then cur mod width m - 1 else if d = 2 then cur mod width m + 1
            else cur mod width m) =
        (if d' = 0 then cur mod width m - 1 else if d' = 2 then cur mod width m + 1
            else cur mod width m)"
    and "(if d = 1 then cur div width m - 1 else if d = 3 then cur div width m + 1
            else cur div width m) =
         (if d' = 1 then cur div width m - 1 else if d' = 3 then cur div width m + 1
            else cur div width m)"
    by simp_all
  with assms(3,4,5) show False
    by (auto simp: canMove_def split: if_splits)
qed

text \<open>The number of cells not yet visited.\<close>

definition unvisited :: "bool list \<Rightarrow> nat" where
  "unvisited vis = length (filter Not vis)"

lemma unvisited_mark:
  "i < length vis \<Longrightarrow> \<not> vis ! i \<Longrightarrow> unvisited (vis[i := True]) + 1 = unvisited vis"
proof (induction vis arbitrary: i)
  case Nil
  then show ?case by simp
next
  case (Cons b vis)
  then show ?case by (cases i) (auto simp: unvisited_def)
qed

lemma mark_mono: "i < length vis \<Longrightarrow> vis ! i \<Longrightarrow> vis[j := True] ! i"
  by (cases "i = j") simp_all

lemma unvisited_le: "unvisited vis \<le> length vis"
  by (simp add: unvisited_def)

text \<open>
  \<open>chain E par s0 i l\<close>: the parent indices lead from the cell \<open>i\<close> back to the start cell
  \<open>s0\<close> along the cells \<open>l\<close>, each step being an edge of \<open>E\<close> from the parent to the child.
\<close>

inductive chain :: "(nat \<Rightarrow> nat \<Rightarrow> bool) \<Rightarrow> nat option list \<Rightarrow> nat \<Rightarrow> nat \<Rightarrow> nat list \<Rightarrow> bool"
  for E par s0 where
    chain_start: "par ! s0 = None \<Longrightarrow> chain E par s0 s0 [s0]"
  | chain_step: "par ! i = Some p \<Longrightarrow> chain E par s0 p l \<Longrightarrow> i \<notin> set l \<Longrightarrow> E p i \<Longrightarrow>
       chain E par s0 i (i # l)"

lemma chain_update:
  "chain E par s0 i l \<Longrightarrow> j \<notin> set l \<Longrightarrow> chain E (par[j := x]) s0 i l"
proof (induction rule: chain.induct)
  case chain_start
  then show ?case by (auto intro: chain.chain_start)
next
  case (chain_step i p l)
  then show ?case by (auto intro!: chain.chain_step)
qed

lemma chain_props:
  "chain E par s0 i l \<Longrightarrow>
     l \<noteq> [] \<and> hd l = i \<and> last l = s0 \<and> distinct l \<and> successively (\<lambda>x y. E y x) l"
proof (induction rule: chain.induct)
  case chain_start
  then show ?case by simp
next
  case (chain_step i p l)
  then show ?case by (cases l) auto
qed


text \<open>
  A cell is reached when its chain of parents leads back to the start cell through cells
  that are visited and, but for the start cell, not excluded.
\<close>

definition reached :: "GridMaze \<Rightarrow> nat \<Rightarrow> solveState \<Rightarrow> nat \<Rightarrow> bool" where
  "reached m s0 st i \<longleftrightarrow>
     (\<exists>l. chain (stepOpen m) (parentIndices st) s0 i l \<and>
          (\<forall>j\<in>set l. j < length (cells m) \<and> visited st ! j \<and>
                      (state (cells m ! j) \<noteq> 2 \<or> j = s0)))"

definition solveInv :: "GridMaze \<Rightarrow> nat \<Rightarrow> solveState \<Rightarrow> bool" where
  "solveInv m s0 st \<longleftrightarrow>
     length (visited st) = length (cells m) \<and>
     length (parentIndices st) = length (cells m) \<and>
     length (dirRanking st) = 4 \<and>
     (\<forall>i<length (cells m). state (cells m ! i) = 2 \<longrightarrow> visited st ! i) \<and>
     (\<forall>i\<in>set (dfsStack st). reached m s0 st i)"

lemma reached_less: "reached m s0 st i \<Longrightarrow> i < length (cells m) \<and> visited st ! i"
proof -
  assume "reached m s0 st i"
  then obtain l where c: "chain (stepOpen m) (parentIndices st) s0 i l"
    and a: "\<forall>j\<in>set l. j < length (cells m) \<and> visited st ! j \<and>
                      (state (cells m ! j) \<noteq> 2 \<or> j = s0)"
    by (auto simp: reached_def)
  from chain_props [OF c] have "i \<in> set l" by (cases l) auto
  with a show ?thesis by blast
qed

lemma reached_mark:
  assumes r: "reached m s0 st i" and nv: "\<not> visited st ! dst"
    and v': "visited st' = (visited st)[dst := True]"
    and p': "parentIndices st' = (parentIndices st)[dst := x]"
  shows "reached m s0 st' i"
proof -
  from r obtain l where c: "chain (stepOpen m) (parentIndices st) s0 i l"
    and a: "\<forall>j\<in>set l. j < length (cells m) \<and> visited st ! j \<and>
                      (state (cells m ! j) \<noteq> 2 \<or> j = s0)"
    by (auto simp: reached_def)
  from a nv have d: "dst \<notin> set l" by blast
  from chain_update [OF c d] p' have "chain (stepOpen m) (parentIndices st') s0 i l" by simp
  moreover have "j < length (cells m) \<and> visited st' ! j \<and>
                      (state (cells m ! j) \<noteq> 2 \<or> j = s0)" if j: "j \<in> set l" for j
  proof -
    from j d have "dst \<noteq> j" by blast
    then have "visited st' ! j = visited st ! j" by (simp add: v')
    with a j show ?thesis by blast
  qed
  ultimately show ?thesis unfolding reached_def by blast
qed

lemma reached_new:
  assumes r: "reached m s0 st cur" and nv: "\<not> visited st ! dst"
    and d: "dst < length (cells m)" and so: "stepOpen m cur dst"
    and ne: "state (cells m ! dst) \<noteq> 2"
    and lv: "length (visited st) = length (cells m)"
    and lp: "length (parentIndices st) = length (cells m)"
    and v': "visited st' = (visited st)[dst := True]"
    and p': "parentIndices st' = (parentIndices st)[dst := Some cur]"
  shows "reached m s0 st' dst"
proof -
  from r obtain l where c: "chain (stepOpen m) (parentIndices st) s0 cur l"
    and a: "\<forall>j\<in>set l. j < length (cells m) \<and> visited st ! j \<and>
                      (state (cells m ! j) \<noteq> 2 \<or> j = s0)"
    by (auto simp: reached_def)
  from a nv have dl: "dst \<notin> set l" by blast
  from chain_update [OF c dl] p' have c': "chain (stepOpen m) (parentIndices st') s0 cur l"
    by simp
  from p' d lp have "parentIndices st' ! dst = Some cur" by simp
  from chain_step [OF this c' dl so]
  have "chain (stepOpen m) (parentIndices st') s0 dst (dst # l)" .
  moreover have "j < length (cells m) \<and> visited st' ! j \<and>
                      (state (cells m ! j) \<noteq> 2 \<or> j = s0)" if j: "j \<in> set (dst # l)" for j
  proof (cases "j = dst")
    case True
    with d lv ne show ?thesis by (simp add: v')
  next
    case False
    then have "visited st' ! j = visited st ! j" by (simp add: v')
    with a j False show ?thesis by auto
  qed
  ultimately show ?thesis unfolding reached_def by blast
qed

text \<open>The loop over the directions.\<close>

lemma tryDirections_ok:
  assumes gd: "gridDims n m" and cur: "cur < n"
    and col: "col = cur mod width m" and row: "row = cur div width m"
  shows "solveInv m s0 st \<Longrightarrow> reached m s0 st cur \<Longrightarrow> \<forall>v\<in>set vs. v \<le> 3 \<Longrightarrow> distinct vs \<Longrightarrow>
     (case mv of None \<Rightarrow> True
      | Some (dst, d) \<Rightarrow> d \<notin> set vs \<and> canMove m cur d \<and> dst = dstOf m cur d \<and>
                          \<not> visited st ! dst) \<Longrightarrow>
     \<exists>st' mv'. tryDirections m cur col row vs (st, mv) = Inr (st', mv') \<and>
        solveInv m s0 st' \<and> reached m s0 st' cur \<and>
        length (dfsStack st') + unvisited (visited st') =
          length (dfsStack st) + unvisited (visited st) \<and>
        unvisited (visited st') \<le> unvisited (visited st) \<and>
        dirRanking st' = dirRanking st \<and>
        (case mv' of None \<Rightarrow> True
         | Some (dst, d) \<Rightarrow> canMove m cur d \<and> dst = dstOf m cur d \<and> \<not> visited st' ! dst)"
proof (induction vs arbitrary: st mv)
  case Nil
  then show ?case by (auto split: option.splits)
next
  case (Cons v vs)
  note inv = Cons.prems(1) and rc = Cons.prems(2)
  from gd have n: "length (cells m) = n" by (simp add: gridDims_def)
  from Cons.prems(3) have v3: "v \<le> 3" and vs3: "\<forall>v\<in>set vs. v \<le> 3" by simp_all
  from Cons.prems(4) have vn: "v \<notin> set vs" and dvs: "distinct vs" by simp_all
  from inv have lv0: "length (visited st) = n" by (simp add: solveInv_def n)
  note ir = isReachableAndUnvisited_eq [OF gd cur v3 col row lv0]
  let ?dst = "dstOf m cur v"
  show ?case
  proof (cases "canMove m cur v \<and> \<not> visited st ! ?dst")
    case False
    then have step: "tryDirections m cur col row (v # vs) (st, mv) =
        tryDirections m cur col row vs (st, mv)"
      using ir by auto
    from Cons.prems(5) have "case mv of None \<Rightarrow> True
      | Some (dst, d) \<Rightarrow> d \<notin> set vs \<and> canMove m cur d \<and> dst = dstOf m cur d \<and>
                          \<not> visited st ! dst"
      by (auto split: option.splits)
    from Cons.IH [OF inv rc vs3 dvs this] step show ?thesis by simp
  next
    case True
    then have cm: "canMove m cur v" and nv: "\<not> visited st ! ?dst" by simp_all
    from canMove_dst(1) [OF gd cur cm] have dl: "?dst < n" .
    show ?thesis
    proof (cases mv)
      case None
      then have step: "tryDirections m cur col row (v # vs) (st, mv) =
          tryDirections m cur col row vs (st, Some (?dst, v))"
        using ir True by simp
      have "case Some (?dst, v) of None \<Rightarrow> True
        | Some (dst, d) \<Rightarrow> d \<notin> set vs \<and> canMove m cur d \<and> dst = dstOf m cur d \<and>
                          \<not> visited st ! dst"
        using vn cm nv by simp
      from Cons.IH [OF inv rc vs3 dvs this] step show ?thesis by simp
    next
      case (Some c)
      obtain dst0 d0 where c: "c = (dst0, d0)" by (cases c)
      from Cons.prems(5) Some c have d0: "d0 \<notin> set (v # vs)" "canMove m cur d0"
        "dst0 = dstOf m cur d0" "\<not> visited st ! dst0" by auto
      from d0(1) have "d0 \<noteq> v" by auto
      from canMove_dst_distinct [OF gd cur d0(2) cm this] d0(3) have ne: "dst0 \<noteq> ?dst" by simp
      let ?st1 = "st\<lparr>visited := (visited st)[?dst := True],
                     parentIndices := (parentIndices st)[?dst := Some cur],
                     dfsStack := dfsStack st @ [?dst]\<rparr>"
      from inv have lv: "length (visited st) = length (cells m)"
        and lp: "length (parentIndices st) = length (cells m)"
        and ex: "\<forall>i<length (cells m). state (cells m ! i) = 2 \<longrightarrow> visited st ! i"
        and stk: "\<forall>i\<in>set (dfsStack st). reached m s0 st i"
        and dr: "length (dirRanking st) = 4"
        by (simp_all add: solveInv_def)
      have step: "tryDirections m cur col row (v # vs) (st, mv) =
          tryDirections m cur col row vs (?st1, mv)"
        using ir True Some lv lp dl n by simp
      from ex nv dl n have nex: "state (cells m ! ?dst) \<noteq> 2" by auto
      from rc cur n have so: "stepOpen m cur ?dst" using cm by (auto simp: stepOpen_def)
      have keep: "reached m s0 ?st1 i" if "reached m s0 st i" for i
        using that nv by (rule reached_mark) simp_all
      have new: "reached m s0 ?st1 ?dst"
        using rc nv _ so nex lv lp by (rule reached_new) (simp_all add: dl n)
      have inv1: "solveInv m s0 ?st1"
        unfolding solveInv_def
      proof (intro conjI allI impI ballI)
        fix i assume "i < length (cells m)" "state (cells m ! i) = 2"
        with ex lv show "visited ?st1 ! i" by (simp add: mark_mono)
      next
        fix i assume "i \<in> set (dfsStack ?st1)"
        then have "i \<in> set (dfsStack st) \<or> i = ?dst" by auto
        with stk keep new show "reached m s0 ?st1 i" by blast
      qed (simp_all add: lv lp dr)
      have m1: "length (dfsStack ?st1) + unvisited (visited ?st1) =
          length (dfsStack st) + unvisited (visited st)"
        using unvisited_mark [of ?dst "visited st"] nv dl lv n by simp
      have u1: "unvisited (visited ?st1) \<le> unvisited (visited st)"
        using unvisited_mark [of ?dst "visited st"] nv dl lv n by simp
      have "case mv of None \<Rightarrow> True
        | Some (dst, d) \<Rightarrow> d \<notin> set vs \<and> canMove m cur d \<and> dst = dstOf m cur d \<and>
                          \<not> visited ?st1 ! dst"
        using Some c d0 ne by (simp add: nth_list_update)
      from Cons.IH [OF inv1 keep [OF rc] vs3 dvs this] obtain st' mv' where
        r: "tryDirections m cur col row vs (?st1, mv) = Inr (st', mv')"
        and i': "solveInv m s0 st'" and rc': "reached m s0 st' cur"
        and ms: "length (dfsStack st') + unvisited (visited st') =
          length (dfsStack ?st1) + unvisited (visited ?st1)"
        and ul: "unvisited (visited st') \<le> unvisited (visited ?st1)"
        and dr': "dirRanking st' = dirRanking ?st1"
        and mv': "case mv' of None \<Rightarrow> True
         | Some (dst, d) \<Rightarrow> canMove m cur d \<and> dst = dstOf m cur d \<and> \<not> visited st' ! dst"
        by blast
      from ms m1 have "length (dfsStack st') + unvisited (visited st') =
          length (dfsStack st) + unvisited (visited st)" by simp
      moreover from dr' have "dirRanking st' = dirRanking st" by simp
      moreover from ul u1 have "unvisited (visited st') \<le> unvisited (visited st)" by simp
      ultimately show ?thesis unfolding step using r i' rc' mv' by blast
    qed
  qed
qed


lemma setDirRanking_perm:
  assumes "length dr = 4"
  shows "distinct (setDirRanking cc cr tc tr dr) \<and> (\<forall>v\<in>set (setDirRanking cc cr tc tr dr). v \<le> 3) \<and>
         length (setDirRanking cc cr tc tr dr) = 4"
  unfolding setDirRanking_cases [OF assms] by simp

lemma reached_cong:
  "visited st' = visited st \<Longrightarrow> parentIndices st' = parentIndices st \<Longrightarrow>
   reached m s0 st' i = reached m s0 st i"
  by (simp add: reached_def)

text \<open>The inner loop, which follows a path.\<close>

lemma followPath_ok:
  assumes gd: "gridDims n m"
  shows "solveInv m s0 st \<Longrightarrow> reached m s0 st cur \<Longrightarrow> col = cur mod width m \<Longrightarrow>
     row = cur div width m \<Longrightarrow> unvisited (visited st) < f \<Longrightarrow>
     \<exists>b st'. followPath f m endCol endRow st cur col row = Some (Inr (b, st')) \<and>
        solveInv m s0 st' \<and>
        length (dfsStack st') + unvisited (visited st') \<le>
          length (dfsStack st) + unvisited (visited st) \<and>
        (b \<longrightarrow> (\<exists>c. reached m s0 st' c \<and> int (c mod width m) = endCol \<and>
                      int (c div width m) = endRow))"
proof (induction f arbitrary: st cur col row)
  case 0
  then show ?case by simp
next
  case (Suc f)
  note inv = Suc.prems(1) and rc = Suc.prems(2) and col = Suc.prems(3) and row = Suc.prems(4)
  from gd have n: "length (cells m) = n" by (simp add: gridDims_def)
  from reached_less [OF rc] n have cur: "cur < n" by simp
  from inv have dr: "length (dirRanking st) = 4" by (simp add: solveInv_def)
  define ranking where "ranking = setDirRanking (int col) (int row) endCol endRow (dirRanking st)"
  from setDirRanking_perm [OF dr] have rk: "distinct ranking" "\<forall>v\<in>set ranking. v \<le> 3"
    "length ranking = 4" by (simp_all add: ranking_def)
  let ?st0 = "st\<lparr>dirRanking := ranking\<rparr>"
  have inv0: "solveInv m s0 ?st0"
    using inv rk(3) by (simp add: solveInv_def reached_cong [of ?st0 st])
  have rc0: "reached m s0 ?st0 cur" using rc by (simp add: reached_cong [of ?st0 st])
  have "case None :: (nat \<times> nat) option of None \<Rightarrow> True
      | Some (dst, d) \<Rightarrow> d \<notin> set ranking \<and> canMove m cur d \<and> dst = dstOf m cur d \<and>
                          \<not> visited ?st0 ! dst" by simp
  from tryDirections_ok [OF gd cur col row inv0 rc0 rk(2) rk(1) this] obtain st1 mv where
    td: "tryDirections m cur col row ranking (?st0, None) = Inr (st1, mv)"
    and inv1: "solveInv m s0 st1" and rc1: "reached m s0 st1 cur"
    and ms: "length (dfsStack st1) + unvisited (visited st1) =
          length (dfsStack ?st0) + unvisited (visited ?st0)"
    and ul: "unvisited (visited st1) \<le> unvisited (visited ?st0)"
    and mv: "case mv of None \<Rightarrow> True
         | Some (dst, d) \<Rightarrow> canMove m cur d \<and> dst = dstOf m cur d \<and> \<not> visited st1 ! dst"
    by blast
  show ?case
  proof (cases mv)
    case None
    with td have "followPath (Suc f) m endCol endRow st cur col row = Some (Inr (False, st1))"
      by (simp add: ranking_def Let_def)
    with inv1 ms show ?thesis by (intro exI [of _ False] exI [of _ st1]) simp
  next
    case (Some c)
    obtain dst d where c: "c = (dst, d)" by (cases c)
    from mv Some c have cm: "canMove m cur d" and de: "dst = dstOf m cur d"
      and nv: "\<not> visited st1 ! dst" by auto
    from canMove_dst [OF gd cur cm] de
    have dl: "dst < n"
      and dcol: "dst mod width m =
           (if d = 0 then cur mod width m - 1 else if d = 2 then cur mod width m + 1
            else cur mod width m)"
      and drow: "dst div width m =
           (if d = 1 then cur div width m - 1 else if d = 3 then cur div width m + 1
            else cur div width m)"
      by simp_all
    define st2 where "st2 = st1\<lparr>visited := (visited st1)[dst := True],
                            parentIndices := (parentIndices st1)[dst := Some cur]\<rparr>"
    define col' where "col' = (if d = 0 then col - 1 else if d = 2 then col + 1 else col)"
    define row' where "row' = (if d = 1 then row - 1 else if d = 3 then row + 1 else row)"
    from dcol drow col row have cr': "col' = dst mod width m" "row' = dst div width m"
      by (simp_all add: col'_def row'_def)
    from inv1 have lv: "length (visited st1) = length (cells m)"
      and lp: "length (parentIndices st1) = length (cells m)"
      and ex: "\<forall>i<length (cells m). state (cells m ! i) = 2 \<longrightarrow> visited st1 ! i"
      and stk: "\<forall>i\<in>set (dfsStack st1). reached m s0 st1 i"
      and dr1: "length (dirRanking st1) = 4"
      by (simp_all add: solveInv_def)
    from ex nv dl n have nex: "state (cells m ! dst) \<noteq> 2" by auto
    from cur n cm de have so: "stepOpen m cur dst" by (auto simp: stepOpen_def)
    have keep: "reached m s0 st2 i" if "reached m s0 st1 i" for i
      using that nv by (rule reached_mark) (simp_all add: st2_def)
    have new: "reached m s0 st2 dst"
      using rc1 nv _ so nex lv lp by (rule reached_new) (simp_all add: dl n st2_def)
    have inv2: "solveInv m s0 st2"
      unfolding solveInv_def
    proof (intro conjI allI impI ballI)
      fix i assume "i < length (cells m)" "state (cells m ! i) = 2"
      with ex lv show "visited st2 ! i" by (simp add: mark_mono st2_def)
    next
      fix i assume "i \<in> set (dfsStack st2)"
      then have "i \<in> set (dfsStack st1)" by (simp add: st2_def)
      with stk keep show "reached m s0 st2 i" by blast
    qed (simp_all add: lv lp dr1 st2_def)
    have m2: "unvisited (visited st2) + 1 = unvisited (visited st1)"
      using unvisited_mark [of dst "visited st1"] nv dl lv n by (simp add: st2_def)
    have stk2: "dfsStack st2 = dfsStack st1" by (simp add: st2_def)
    have step: "followPath (Suc f) m endCol endRow st cur col row =
        (if int row' = endRow \<and> int col' = endCol then Some (Inr (True, st2))
         else followPath f m endCol endRow st2 dst col' row')"
      using td Some c lv lp dl n by (simp add: ranking_def Let_def st2_def col'_def row'_def)
    show ?thesis
    proof (cases "int row' = endRow \<and> int col' = endCol")
      case True
      with step have "followPath (Suc f) m endCol endRow st cur col row = Some (Inr (True, st2))"
        by simp
      moreover from True cr' new
      have "\<exists>c. reached m s0 st2 c \<and> int (c mod width m) = endCol \<and> int (c div width m) = endRow"
        by auto
      moreover from ms m2 stk2 have "length (dfsStack st2) + unvisited (visited st2) \<le>
          length (dfsStack st) + unvisited (visited st)" by simp
      ultimately show ?thesis using inv2 by blast
    next
      case False
      with step have e: "followPath (Suc f) m endCol endRow st cur col row =
          followPath f m endCol endRow st2 dst col' row'" by simp
      from ul m2 Suc.prems(5) have "unvisited (visited st2) < f" by simp
      from Suc.IH [OF inv2 new cr' this] obtain b st' where
        r: "followPath f m endCol endRow st2 dst col' row' = Some (Inr (b, st'))"
        and i': "solveInv m s0 st'"
        and m': "length (dfsStack st') + unvisited (visited st') \<le>
          length (dfsStack st2) + unvisited (visited st2)"
        and f': "b \<longrightarrow> (\<exists>c. reached m s0 st' c \<and> int (c mod width m) = endCol \<and>
                      int (c div width m) = endRow)"
        by blast
      from m' ms m2 stk2 have "length (dfsStack st') + unvisited (visited st') \<le>
          length (dfsStack st) + unvisited (visited st)" by simp
      with r i' f' show ?thesis unfolding e by blast
    qed
  qed
qed


text \<open>The outer loop.\<close>

lemma dfsLoop_ok:
  assumes gd: "gridDims n m" and k: "n < k"
  shows "solveInv m s0 st \<Longrightarrow> length (dfsStack st) + unvisited (visited st) < f \<Longrightarrow>
     dfsLoop k f m endCol endRow st = Some (Inl FailedToSolveMaze) \<or>
     (\<exists>st' c. dfsLoop k f m endCol endRow st = Some (Inr st') \<and> solveInv m s0 st' \<and>
        reached m s0 st' c \<and> int (c mod width m) = endCol \<and> int (c div width m) = endRow)"
proof (induction f arbitrary: st)
  case 0
  then show ?case by simp
next
  case (Suc f)
  note inv = Suc.prems(1)
  from gd have n: "length (cells m) = n" and w: "width m \<noteq> 0" by (simp_all add: gridDims_def)
  show ?case
  proof (cases "dfsStack st = []")
    case True
    then show ?thesis by simp
  next
    case False
    define cur where "cur = last (dfsStack st)"
    define st1 where "st1 = st\<lparr>dfsStack := butlast (dfsStack st)\<rparr>"
    have v1: "visited st1 = visited st" and p1: "parentIndices st1 = parentIndices st"
      and d1: "dirRanking st1 = dirRanking st" and s1: "dfsStack st1 = butlast (dfsStack st)"
      by (simp_all add: st1_def)
    from False have "cur \<in> set (dfsStack st)" by (simp add: cur_def)
    with inv have rc: "reached m s0 st cur" by (simp add: solveInv_def)
    with reached_cong [OF v1 p1] have rc1: "reached m s0 st1 cur" by simp
    have inv1: "solveInv m s0 st1"
      using inv reached_cong [OF v1 p1]
      by (auto simp: solveInv_def v1 p1 d1 s1 dest: in_set_butlastD)
    from False have m1: "length (dfsStack st1) + unvisited (visited st1) + 1 =
        length (dfsStack st) + unvisited (visited st)"
      by (simp add: v1 s1)
    have step: "dfsLoop k (Suc f) m endCol endRow st =
        (if int (cur div width m) = endRow \<and> int (cur mod width m) = endCol then Some (Inr st1)
         else (case followPath k m endCol endRow st1 cur (cur mod width m) (cur div width m) of
                 None \<Rightarrow> None
               | Some (Inl e) \<Rightarrow> Some (Inl e)
               | Some (Inr (True, st2)) \<Rightarrow> Some (Inr st2)
               | Some (Inr (False, st2)) \<Rightarrow> dfsLoop k f m endCol endRow st2))"
      using False w by (simp add: Let_def cur_def st1_def)
    show ?thesis
    proof (cases "int (cur div width m) = endRow \<and> int (cur mod width m) = endCol")
      case True
      from step have "dfsLoop k (Suc f) m endCol endRow st = Some (Inr st1)"
        by (simp only: if_P [OF True])
      with inv1 rc1 True show ?thesis by blast
    next
      case nf: False
      from inv1 have "length (visited st1) = n" by (simp add: solveInv_def n)
      with unvisited_le [of "visited st1"] k have "unvisited (visited st1) < k" by simp
      from followPath_ok [OF gd inv1 rc1 refl refl this, of endCol endRow] obtain b st2 where
        fp: "followPath k m endCol endRow st1 cur (cur mod width m) (cur div width m) =
               Some (Inr (b, st2))"
        and inv2: "solveInv m s0 st2"
        and m2: "length (dfsStack st2) + unvisited (visited st2) \<le>
          length (dfsStack st1) + unvisited (visited st1)"
        and f2: "b \<longrightarrow> (\<exists>c. reached m s0 st2 c \<and> int (c mod width m) = endCol \<and>
                      int (c div width m) = endRow)"
        by blast
      from step have step': "dfsLoop k (Suc f) m endCol endRow st =
          (if b then Some (Inr st2) else dfsLoop k f m endCol endRow st2)"
        by (simp only: if_not_P [OF nf] fp) simp
      show ?thesis
      proof (cases b)
        case True
        with step' have "dfsLoop k (Suc f) m endCol endRow st = Some (Inr st2)"
          by simp
        with inv2 f2 True show ?thesis by blast
      next
        case bf: False
        with step' have e: "dfsLoop k (Suc f) m endCol endRow st =
            dfsLoop k f m endCol endRow st2"
          by simp
        from m1 m2 Suc.prems(2) have "length (dfsStack st2) + unvisited (visited st2) < f"
          by simp
        from Suc.IH [OF inv2 this] show ?thesis unfolding e .
      qed
    qed
  qed
qed

text \<open>The loop that marks the path.\<close>

definition marked :: "gridMazeCell list \<Rightarrow> nat list \<Rightarrow> gridMazeCell list \<Rightarrow> bool" where
  "marked cs l cs' \<longleftrightarrow>
     length cs' = length cs \<and>
     (\<forall>j<length cs. cs' ! j = (if j \<in> set l then (cs ! j)\<lparr>state := 1\<rparr> else cs ! j))"

lemma markPath_ok:
  "chain E par s0 i l \<Longrightarrow> \<forall>j\<in>set l. j < length cs \<Longrightarrow> length par = length cs \<Longrightarrow>
   length l \<le> f \<Longrightarrow>
   \<exists>cs'. markPath f cs par (Some i) = Some (Inr cs') \<and> marked cs l cs'"
proof (induction arbitrary: f cs rule: chain.induct)
  case chain_start
  then obtain f' where f: "f = Suc f'" by (cases f) auto
  from chain_start have "markPath f cs par (Some s0) = Some (Inr (cs[s0 := (cs ! s0)\<lparr>state := 1\<rparr>]))"
    by (simp add: f)
  moreover have "marked cs [s0] (cs[s0 := (cs ! s0)\<lparr>state := 1\<rparr>])"
    by (simp add: marked_def nth_list_update)
  ultimately show ?case by blast
next
  case (chain_step i p l)
  then obtain f' where f: "f = Suc f'" by (cases f) auto
  let ?cs = "cs[i := (cs ! i)\<lparr>state := 1\<rparr>]"
  from chain_step.prems have il: "i < length cs" and l: "\<forall>j\<in>set l. j < length ?cs"
    and lp: "length par = length ?cs" and lf: "length l \<le> f'"
    by (simp_all add: f)
  from chain_step.IH [OF l lp lf] obtain cs' where
    r: "markPath f' ?cs par (Some p) = Some (Inr cs')" and mk: "marked ?cs l cs'" by blast
  from chain_step.hyps(1) il chain_step.prems(2) r
  have "markPath f cs par (Some i) = Some (Inr cs')" by (simp add: f)
  moreover have "marked cs (i # l) cs'"
    using mk chain_step.hyps(3) il
    by (auto simp: marked_def nth_list_update)
  ultimately show ?case by blast
qed

text \<open>More fuel changes no result.\<close>

lemma followPath_mono:
  "followPath f m ec er st cur col row = Some r \<Longrightarrow> f \<le> f' \<Longrightarrow>
   followPath f' m ec er st cur col row = Some r"
proof (induction f arbitrary: f' st cur col row)
  case 0
  then show ?case by simp
next
  case (Suc f)
  from Suc.prems(2) obtain f'' where f': "f' = Suc f''" and le: "f \<le> f''" by (cases f') auto
  note ih = Suc.IH [OF _ le]
  from Suc.prems(1) show ?case
    unfolding f' followPath.simps Let_def
    by (auto split: sum.splits option.splits prod.splits if_splits dest!: ih)
qed

lemma dfsLoop_mono:
  "dfsLoop k f m ec er st = Some r \<Longrightarrow> k \<le> k' \<Longrightarrow> f \<le> f' \<Longrightarrow>
   dfsLoop k' f' m ec er st = Some r"
proof (induction f arbitrary: f' st)
  case 0
  then show ?case by simp
next
  case (Suc f)
  from Suc.prems(3) obtain f'' where f': "f' = Suc f''" and le: "f \<le> f''" by (cases f') auto
  note ih = Suc.IH [OF _ Suc.prems(2) le]
  note fm = followPath_mono [OF _ Suc.prems(2)]
  define cur where "cur = last (dfsStack st)"
  define st1 where "st1 = st\<lparr>dfsStack := butlast (dfsStack st)\<rparr>"
  show ?case
  proof (cases "followPath k m ec er st1 cur (cur mod width m) (cur div width m)")
    case None
    with Suc.prems(1) show ?thesis
      unfolding f' by (auto simp: Let_def cur_def st1_def split: if_splits)
  next
    case (Some x)
    from fm [OF Some] have x': "followPath k' m ec er st1 cur (cur mod width m) (cur div width m) = Some x" .
    from Suc.prems(1) Some x' show ?thesis
      unfolding f'
      by (auto simp: Let_def cur_def st1_def split: if_splits sum.splits prod.splits bool.splits
          dest!: ih)
  qed
qed

lemma markPath_mono:
  "markPath f cs par i = Some r \<Longrightarrow> f \<le> f' \<Longrightarrow> markPath f' cs par i = Some r"
proof (induction f arbitrary: f' cs i)
  case 0
  then show ?case by (cases i) simp_all
next
  case (Suc f)
  show ?case
  proof (cases i)
    case None
    with Suc.prems show ?thesis by simp
  next
    case (Some j)
    from Suc.prems(2) obtain f'' where f': "f' = Suc f''" and le: "f \<le> f''" by (cases f') auto
    from Suc.prems(1) Suc.IH [OF _ le] show ?thesis
      unfolding f' Some by (auto split: if_splits)
  qed
qed

lemma ShowSolution_mono:
  assumes "ShowSolution k m b = Some r" and "k \<le> k'"
  shows "ShowSolution k' m b = Some r"
proof -
  note dm = dfsLoop_mono [OF _ assms(2) assms(2)]
  note mm = markPath_mono [OF _ assms(2)]
  from assms(1) show ?thesis
    unfolding ShowSolution_def Let_def
    by (auto split: if_splits option.splits sum.splits dest!: dm mm)
qed


section \<open>What the solver returns\<close>

lemma unvisited_after_mark: "i < length vis \<Longrightarrow> unvisited (vis[i := True]) < length vis"
proof -
  assume "i < length vis"
  then have "True \<in> set (vis[i := True])" by (rule set_update_memI)
  then have "length (filter Not (vis[i := True])) < length (vis[i := True])"
    by (rule length_filter_less) simp
  then show ?thesis by (simp add: unvisited_def)
qed

lemma distinct_length_le:
  assumes "distinct l" and "\<forall>j\<in>set l. j < n"
  shows "length l \<le> n"
proof -
  from assms(2) have "set l \<subseteq> {..<n}" by auto
  then have "card (set l) \<le> card {..<n}" by (intro card_mono) simp_all
  with distinct_card [OF assms(1)] show ?thesis by simp
qed

lemma sdiv_smod_index:
  assumes "int (c mod w) = e smod int w" and "int (c div w) = e sdiv int w"
  shows "e = int c"
proof -
  have "e = int w * (e sdiv int w) + e smod int w" by (simp add: mult_sdiv_smod_eq)
  also have "\<dots> = int w * int (c div w) + int (c mod w)" by (simp only: assms)
  also have "\<dots> = int (w * (c div w) + c mod w)" by (simp only: of_nat_add of_nat_mult)
  also have "\<dots> = int c" by simp
  finally show ?thesis .
qed

text \<open>
  The list \<open>l\<close> is a solution path of the maze: it leads from the end cell back to the
  start cell, without repetition, each cell being entered from the next one of the list by
  a move that the solver accepts, and no cell of it but possibly the start cell is excluded.
\<close>

definition solutionPath :: "GridMaze \<Rightarrow> nat list \<Rightarrow> bool" where
  "solutionPath m l \<longleftrightarrow>
     l \<noteq> [] \<and> 0 \<le> endCellIndex m \<and> hd l = nat (endCellIndex m) \<and>
     last l = nat (startCellIndex m) \<and> distinct l \<and>
     successively (\<lambda>x y. stepOpen m y x) l \<and>
     (\<forall>j\<in>set l. j < length (cells m) \<and>
        (state (cells m ! j) \<noteq> 2 \<or> j = nat (startCellIndex m)))"

lemma ShowSolution_ok:
  assumes gd: "gridDims n m" and s: "0 \<le> startCellIndex m" "startCellIndex m < int n"
    and k: "n < k"
  shows "ShowSolution k m True = Some (Inl FailedToSolveMaze) \<or>
     (\<exists>l cs. ShowSolution k m True = Some (Inr (m\<lparr>cells := cs\<rparr>)) \<and>
        solutionPath m l \<and> marked (cells m) l cs)"
proof -
  from gd have n: "length (cells m) = n" and w: "width m \<noteq> 0" by (simp_all add: gridDims_def)
  define s0 where "s0 = nat (startCellIndex m)"
  define endCol where "endCol = endCellIndex m smod int (width m)"
  define endRow where "endRow = endCellIndex m sdiv int (width m)"
  define vis where "vis = map (\<lambda>c. state c = 2) (cells m)"
  define st0 where "st0 = \<lparr>visited = vis[s0 := True], parentIndices = replicate n None,
                       dfsStack = [s0], dirRanking = [0, 0, 0, 0]\<rparr>"
  from s have s0: "s0 < n" by (simp add: s0_def)
  have lv: "length vis = n" by (simp add: vis_def n)
  have step: "ShowSolution k m True =
      (case dfsLoop k k m endCol endRow st0 of
         None \<Rightarrow> None
       | Some (Inl e) \<Rightarrow> Some (Inl e)
       | Some (Inr st) \<Rightarrow>
           (case markPath k (cells m) (parentIndices st)
                   (if 0 \<le> endCellIndex m then Some (nat (endCellIndex m)) else None) of
              None \<Rightarrow> None
            | Some (Inl e) \<Rightarrow> Some (Inl e)
            | Some (Inr cs) \<Rightarrow> Some (Inr (m\<lparr>cells := cs\<rparr>))))"
    using s w by (simp add: ShowSolution_def Let_def endCol_def endRow_def vis_def st0_def s0_def n)
  have v0: "visited st0 = vis[s0 := True]" and p0: "parentIndices st0 = replicate n None"
    and d0: "dfsStack st0 = [s0]" and r0: "dirRanking st0 = [0, 0, 0, 0]"
    by (simp_all add: st0_def)
  have "chain (stepOpen m) (parentIndices st0) s0 s0 [s0]"
    using s0 by (intro chain_start) (simp add: p0)
  then have rs: "reached m s0 st0 s0"
    unfolding reached_def using s0 lv by (intro exI [of _ "[s0]"]) (simp add: v0 n)
  have inv0: "solveInv m s0 st0"
    unfolding solveInv_def
  proof (intro conjI allI impI ballI)
    fix i assume "i < length (cells m)" "state (cells m ! i) = 2"
    then have "i < length vis" "vis ! i" by (simp_all add: vis_def)
    then show "visited st0 ! i" unfolding v0 by (rule mark_mono)
  next
    fix i assume "i \<in> set (dfsStack st0)"
    with rs show "reached m s0 st0 i" by (simp add: d0)
  qed (simp_all add: v0 p0 r0 lv n)
  from unvisited_after_mark [of s0 vis] s0 lv k
  have "length (dfsStack st0) + unvisited (visited st0) < k" by (simp add: v0 d0)
  from dfsLoop_ok [OF gd k inv0 this, of endCol endRow]
  consider (failed) "dfsLoop k k m endCol endRow st0 = Some (Inl FailedToSolveMaze)"
    | (found) st' c where "dfsLoop k k m endCol endRow st0 = Some (Inr st')"
        "solveInv m s0 st'" "reached m s0 st' c"
        "int (c mod width m) = endCol" "int (c div width m) = endRow"
    by blast
  then show ?thesis
  proof cases
    case failed
    with step show ?thesis by simp
  next
    case found
    from sdiv_smod_index [of c "width m" "endCellIndex m"] found(4,5)
    have e: "endCellIndex m = int c" by (simp add: endCol_def endRow_def)
    from found(3) obtain l where c: "chain (stepOpen m) (parentIndices st') s0 c l"
      and a: "\<forall>j\<in>set l. j < length (cells m) \<and> visited st' ! j \<and>
                      (state (cells m ! j) \<noteq> 2 \<or> j = s0)"
      by (auto simp: reached_def)
    note cp = chain_props [OF c]
    from a have al: "\<forall>j\<in>set l. j < length (cells m)" by blast
    from found(2) have lp: "length (parentIndices st') = length (cells m)"
      by (simp add: solveInv_def)
    from cp al n have "length l \<le> n" by (intro distinct_length_le) simp_all
    with k have lk: "length l \<le> k" by simp
    from markPath_ok [OF c al lp lk] obtain cs where
      mp: "markPath k (cells m) (parentIndices st') (Some c) = Some (Inr cs)"
      and mk: "marked (cells m) l cs" by blast
    from step found(1) mp e have "ShowSolution k m True = Some (Inr (m\<lparr>cells := cs\<rparr>))"
      by simp
    moreover from cp a e have "solutionPath m l"
      by (simp add: solutionPath_def s0_def)
    ultimately show ?thesis using mk by blast
  qed
qed

text \<open>A move that the solver accepts goes through a passage when the walls are symmetric.\<close>

lemma stepOpen_passage:
  assumes gd: "gridDims n m" and sym: "wallsSymmetric m" and so: "stepOpen m p i"
  shows "passage m p i"
proof -
  from gd have n: "length (cells m) = n" and w: "1 \<le> width m" by (simp_all add: gridDims_def)
  from so obtain d where p: "p < n" and cm: "canMove m p d" and i: "i = dstOf m p d"
    by (auto simp: stepOpen_def n)
  from canMove_dst(1) [OF gd p cm] i have il: "i < n" by simp
  from cm have nw: "\<not> walls (cells m ! p) d" by (simp add: canMove_def)
  from cm have "d = 0 \<or> d = 1 \<or> d = 2 \<or> d = 3" by (auto simp: canMove_def)
  then consider (left) "d = 0" "p mod width m \<noteq> 0" | (up) "d = 1" "p div width m \<noteq> 0"
    | (right) "d = 2" "p mod width m \<noteq> width m - 1" | (down) "d = 3"
    using cm by (auto simp: canMove_def)
  then show ?thesis
  proof cases
    case left
    then have p0: "0 < p" by (cases p) auto
    with i left have pi: "p = i + 1" by (simp add: dstOf_def)
    have "Suc i mod width m =
      (if Suc (i mod width m) = width m then 0 else Suc (i mod width m))"
      by (rule mod_Suc)
    with left(2) pi have "Suc (i mod width m) \<noteq> width m" by auto
    moreover from w have "i mod width m < width m" by simp
    ultimately have r: "i mod width m < width m - 1" by simp
    from sym r p pi n have "walls (cells m ! i) 2 = walls (cells m ! (i + 1)) 0"
      by (simp add: wallsSymmetric_def)
    with nw left(1) pi r p n have "rightOpen m i" by (simp add: rightOpen_def)
    with pi show ?thesis by (simp add: passage_def)
  next
    case up
    then have "width m \<le> p" by (auto simp: div_eq_0_iff)
    with i up have pi: "p = i + width m" by (simp add: dstOf_def)
    from sym p pi n have "walls (cells m ! i) 3 = walls (cells m ! (i + width m)) 1"
      by (simp add: wallsSymmetric_def)
    with nw up(1) pi p n have "downOpen m i" by (simp add: downOpen_def)
    with pi show ?thesis by (simp add: passage_def)
  next
    case right
    from i right have ip: "i = p + 1" by (simp add: dstOf_def)
    from w have "p mod width m < width m" by simp
    with right(2) have r: "p mod width m < width m - 1" by simp
    from sym r il ip n have "walls (cells m ! p) 2 = walls (cells m ! (p + 1)) 0"
      by (simp add: wallsSymmetric_def)
    with nw right(1) ip r il n have "rightOpen m p" by (simp add: rightOpen_def)
    with ip show ?thesis by (simp add: passage_def)
  next
    case down
    from i down have ip: "i = p + width m" by (simp add: dstOf_def)
    from sym il ip n have "walls (cells m ! p) 3 = walls (cells m ! (p + width m)) 1"
      by (simp add: wallsSymmetric_def)
    with nw down ip il n have "downOpen m p" by (simp add: downOpen_def)
    with ip show ?thesis by (simp add: passage_def)
  qed
qed

lemma solutionPath_simplePath:
  assumes gd: "gridDims n m" and sym: "wallsSymmetric m" and sp: "solutionPath m l"
  shows "simplePath (passage m) (nat (startCellIndex m)) (nat (endCellIndex m)) (rev l)"
proof -
  from sp have l: "l \<noteq> []" "hd l = nat (endCellIndex m)" "last l = nat (startCellIndex m)"
    "distinct l" "successively (\<lambda>x y. stepOpen m y x) l"
    by (simp_all add: solutionPath_def)
  from l(5) have "successively (\<lambda>x y. passage m y x) l"
    by (rule successively_mono) (rule stepOpen_passage [OF gd sym])
  with l show ?thesis by (simp add: simplePath_def hd_rev last_rev)
qed

section \<open>Properties of the solver\<close>

lemma validGrid_gridDims: "validGrid m \<Longrightarrow> gridDims (width m * height m) m"
  by (simp add: validGrid_def gridDims_def)

lemma ShowSolution_returns:
  assumes v: "validGrid m" and k: "width m * height m < k"
  shows "\<exists>r. ShowSolution k m showIt = Some r"
proof (cases "showIt \<and> 0 \<le> startCellIndex m \<and> startCellIndex m < int (width m * height m)")
  case True
  with ShowSolution_ok [OF validGrid_gridDims [OF v] _ _ k] show ?thesis by auto
next
  case False
  from v have "width m \<noteq> 0" "length (cells m) = width m * height m"
    by (simp_all add: validGrid_def)
  with False show ?thesis by (auto simp: ShowSolution_def Let_def)
qed

text \<open>
  The maze that generation returns, from the maze of 2 columns and 2 rows with no wall
  set, when every random number drawn is 0: its only inner wall stands between the cells
  0 and 2.
\<close>

definition tree22 :: GridMaze where
  "tree22 = gridOf 2 2
     [cellOf [True, True, False, True] 0, cellOf [False, True, True, False] 0,
      cellOf [True, True, False, True] 0, cellOf [False, False, True, True] 0]"

text \<open>
  Claim C9.  For a maze of \<open>width * height\<close> cells, whatever the states of its cells, the
  seed and the random numbers: \<^verbatim>\<open>RegenerateFromSeed\<close> returns when no loop of it runs more
  than twice the cell count of iterations, and \<^verbatim>\<open>ShowSolution\<close> returns, whatever the start
  and end indices, when no loop of it runs more than the cell count of iterations.  The
  fuel is the number of iterations granted to each loop, and running out of it is the
  result \<open>None\<close>.
\<close>

theorem generation_and_solving_terminate:
  assumes "validGrid m"
  shows "(2 * (width m * height m) < k \<longrightarrow>
           (\<exists>m'. RegenerateFromSeed k src sd m = Some (Inr m'))) \<and>
         (width m * height m < k \<longrightarrow> (\<exists>r. ShowSolution k m showIt = Some r))"
proof (intro conjI impI)
  assume "2 * (width m * height m) < k"
  from RegenerateFromSeed_ok [OF assms this, of src sd]
  show "\<exists>m'. RegenerateFromSeed k src sd m = Some (Inr m')" by blast
next
  assume "width m * height m < k"
  with assms show "\<exists>r. ShowSolution k m showIt = Some r" by (rule ShowSolution_returns)
qed

theorem generation_and_solving_terminate_witness:
  "validGrid tree22 \<and> 2 * (width tree22 * height tree22) < 9 \<and>
   width tree22 * height tree22 < 5 \<and>
   (\<exists>m'. RegenerateFromSeed 9 (\<lambda>s i. 0) 1 tree22 = Some (Inr m')) \<and>
   (\<exists>r. ShowSolution 5 tree22 True = Some r)"
proof -
  have v: "validGrid tree22" by (simp add: validGrid_def tree22_def gridOf_def)
  have k: "2 * (width tree22 * height tree22) < 9" "width tree22 * height tree22 < 5"
    by (simp_all add: tree22_def gridOf_def)
  from generation_and_solving_terminate [OF v, of 9 "\<lambda>s i. 0" 1 True]
    generation_and_solving_terminate [OF v, of 5 "\<lambda>s i. 0" 1 True] v k
  show ?thesis by simp
qed






section \<open>Excluded cells\<close>

lemma excludedWalled_code:
  "excludedWalled m \<longleftrightarrow>
     (\<forall>i\<in>set [0..<length (cells m)]. state (cells m ! i) = 2 \<longrightarrow>
        (\<forall>d\<in>set [0..<4]. walls (cells m ! i) d))"
  unfolding excludedWalled_def by auto

lemma ErodeWalls_excluded:
  assumes v: "validGrid m" and sym: "wallsSymmetric m" and ew: "excludedWalled m"
    and i: "i < length (cells m)" and e: "state (cells m ! i) = 2"
  shows "walls (cells (ErodeWalls m) ! i) d = walls (cells m ! i) d"
proof -
  from ew i e have "\<forall>d<4. walls (cells m ! i) d" by (simp add: excludedWalled_def)
  from erodeClears_walled [OF v sym this] have "(i, d) \<notin> set (erodeClears m)" .
  with ErodeWalls_nth [OF i, of d] show ?thesis by simp
qed

lemma ShowSolution_excluded:
  assumes v: "validGrid m" and s: "ShowSolution k m True = Some (Inr m')"
    and ne: "state (cells m ! nat (startCellIndex m)) \<noteq> 2"
  shows "length (cells m') = length (cells m) \<and>
     (\<forall>i<length (cells m). state (cells m ! i) = 2 \<longrightarrow> state (cells m' ! i) = 2)"
proof -
  define n where "n = width m * height m"
  from v have gd: "gridDims n m" unfolding n_def by (rule validGrid_gridDims)
  then have w: "width m \<noteq> 0" and n: "length (cells m) = n" by (simp_all add: gridDims_def)
  have r: "0 \<le> startCellIndex m \<and> startCellIndex m < int n"
  proof (rule ccontr)
    assume "\<not> (0 \<le> startCellIndex m \<and> startCellIndex m < int n)"
    with w n have "ShowSolution k m True = Some (Inl IndexOutOfRange)"
      by (auto simp: ShowSolution_def Let_def)
    with s show False by simp
  qed
  define K where "K = max k (Suc n)"
  have "k \<le> K" "n < K" by (simp_all add: K_def)
  from ShowSolution_mono [OF s this(1)] have sK: "ShowSolution K m True = Some (Inr m')" .
  from r have "0 \<le> startCellIndex m" "startCellIndex m < int n" by simp_all
  from ShowSolution_ok [OF gd this \<open>n < K\<close>] sK obtain l cs where
    m': "m' = m\<lparr>cells := cs\<rparr>" and sp: "solutionPath m l" and mk: "marked (cells m) l cs"
    by auto
  have "state (cs ! i) = 2" if i: "i < length (cells m)" and e: "state (cells m ! i) = 2" for i
  proof -
    from e ne have "i \<noteq> nat (startCellIndex m)" by auto
    with sp e have "i \<notin> set l" by (auto simp: solutionPath_def)
    with mk i e show ?thesis by (simp add: marked_def)
  qed
  moreover from mk have "length cs = length (cells m)" by (simp add: marked_def)
  ultimately show ?thesis by (simp add: m')
qed

text \<open>
  The maze that generation returns, from the maze of 2 columns and 2 rows whose cell 1 is
  excluded, when every random number drawn is 0: the passages lead from cell 0 down to
  cell 2 and from there to cell 3.
\<close>

definition maskedTree :: GridMaze where
  "maskedTree = gridOf 2 2
     [cellOf [True, True, True, False] 0, cellOf [True, True, True, True] 2,
      cellOf [True, False, False, True] 0, cellOf [False, True, True, True] 0]"

text \<open>
  The maze that \<^verbatim>\<open>NewGridMazeFromTemplate\<close> hands to \<^verbatim>\<open>RegenerateFromSeed\<close> for the template
  \<open>threePixels\<close>: no wall is set yet, and the cell of the black pixel is excluded.
\<close>

definition maskedRow :: GridMaze where
  "maskedRow = \<lparr>width = 3, height = 1,
     cells = [zeroCell, zeroCell\<lparr>state := 2\<rparr>, zeroCell],
     startCellIndex = 0, endCellIndex = 2, neighbors = [], randomSeed = 0\<rparr>"

text \<open>
  Claim C2.  Generation sets the four walls of every cell anew, the excluded ones too, and
  clears no wall of an excluded cell: after \<^verbatim>\<open>RegenerateFromSeed\<close> every excluded cell has
  its four walls, so its walls are as before when, and only when, they were all set before
  the call, as they are in every maze that generation has returned.  On such a maze
  (walls symmetric, excluded cells with their four walls) \<^verbatim>\<open>ErodeWalls\<close> changes no wall
  of an excluded cell and returns such a maze again.  \<^verbatim>\<open>ShowSolution(true)\<close>, when it
  returns no error on a maze whose start cell is not excluded, leaves every excluded cell
  excluded.
\<close>

theorem excluded_cells_inert:
  assumes "validGrid m"
  shows "(2 * (width m * height m) < k \<longrightarrow>
      (\<exists>m'. RegenerateFromSeed k src sd m = Some (Inr m') \<and>
         validGrid m' \<and> wallsSymmetric m' \<and> excludedWalled m' \<and>
         (\<forall>i<length (cells m). state (cells m ! i) = 2 \<longrightarrow>
            state (cells m' ! i) = 2 \<and> (\<forall>d<4. walls (cells m' ! i) d)))) \<and>
   (wallsSymmetric m \<and> excludedWalled m \<longrightarrow>
      validGrid (ErodeWalls m) \<and> wallsSymmetric (ErodeWalls m) \<and>
      excludedWalled (ErodeWalls m) \<and>
      (\<forall>i<length (cells m). state (cells m ! i) = 2 \<longrightarrow>
         state (cells (ErodeWalls m) ! i) = 2 \<and>
         (\<forall>d. walls (cells (ErodeWalls m) ! i) d = walls (cells m ! i) d))) \<and>
   (\<forall>k' m'. ShowSolution k' m True = Some (Inr m') \<and>
        state (cells m ! nat (startCellIndex m)) \<noteq> 2 \<longrightarrow>
      length (cells m') = length (cells m) \<and>
      (\<forall>i<length (cells m). state (cells m ! i) = 2 \<longrightarrow> state (cells m' ! i) = 2))"
proof (intro conjI)
  show "2 * (width m * height m) < k \<longrightarrow>
      (\<exists>m'. RegenerateFromSeed k src sd m = Some (Inr m') \<and>
         validGrid m' \<and> wallsSymmetric m' \<and> excludedWalled m' \<and>
         (\<forall>i<length (cells m). state (cells m ! i) = 2 \<longrightarrow>
            state (cells m' ! i) = 2 \<and> (\<forall>d<4. walls (cells m' ! i) d)))"
  proof
    assume k: "2 * (width m * height m) < k"
    from RegenerateFromSeed_ok [OF assms k, of src sd] obtain m' where
      r: "RegenerateFromSeed k src sd m = Some (Inr m')" and g: "generatedFrom m sd m'" by blast
    from g have d: "width m' = width m" "height m' = height m"
      "length (cells m') = length (cells m)" "neighbors m' = []"
      and st: "\<forall>i<length (cells m). state (cells m' ! i) = state (cells m ! i)"
      and sym: "wallsSymmetric m'" and ew: "excludedWalled m'"
      by (simp_all add: generatedFrom_def)
    from assms d have v': "validGrid m'" by (simp add: validGrid_def)
    have "state (cells m' ! i) = 2 \<and> (\<forall>d<4. walls (cells m' ! i) d)"
      if "i < length (cells m)" "state (cells m ! i) = 2" for i
      using that st ew d(3) by (simp add: excludedWalled_def)
    with r v' sym ew show "\<exists>m'. RegenerateFromSeed k src sd m = Some (Inr m') \<and>
         validGrid m' \<and> wallsSymmetric m' \<and> excludedWalled m' \<and>
         (\<forall>i<length (cells m). state (cells m ! i) = 2 \<longrightarrow>
            state (cells m' ! i) = 2 \<and> (\<forall>d<4. walls (cells m' ! i) d))" by blast
  qed
  show "wallsSymmetric m \<and> excludedWalled m \<longrightarrow>
      validGrid (ErodeWalls m) \<and> wallsSymmetric (ErodeWalls m) \<and>
      excludedWalled (ErodeWalls m) \<and>
      (\<forall>i<length (cells m). state (cells m ! i) = 2 \<longrightarrow>
         state (cells (ErodeWalls m) ! i) = 2 \<and>
         (\<forall>d. walls (cells (ErodeWalls m) ! i) d = walls (cells m ! i) d))"
  proof
    assume a: "wallsSymmetric m \<and> excludedWalled m"
    then have sym: "wallsSymmetric m" and ew: "excludedWalled m" by simp_all
    from assms have 1: "validGrid (ErodeWalls m)" by (simp add: validGrid_def)
    from sym have 2: "wallsSymmetric (ErodeWalls m)" by (rule ErodeWalls_symmetric)
    have keep: "state (cells (ErodeWalls m) ! i) = 2 \<and>
         (\<forall>d. walls (cells (ErodeWalls m) ! i) d = walls (cells m ! i) d)"
      if "i < length (cells m)" "state (cells m ! i) = 2" for i
      using ErodeWalls_excluded [OF assms sym ew that] ErodeWalls_nth [OF that(1)] that(2)
      by simp
    have 3: "excludedWalled (ErodeWalls m)"
      unfolding excludedWalled_def
    proof (intro allI impI)
      fix i d :: nat
      assume i: "i < length (cells (ErodeWalls m))" and e: "state (cells (ErodeWalls m) ! i) = 2"
        and d: "d < 4"
      from i have i': "i < length (cells m)" by simp
      with e ErodeWalls_nth [OF i'] have e': "state (cells m ! i) = 2" by simp
      from ew i' e' d have "walls (cells m ! i) d" by (simp add: excludedWalled_def)
      with keep [OF i' e'] show "walls (cells (ErodeWalls m) ! i) d" by simp
    qed
    from 1 2 3 keep show "validGrid (ErodeWalls m) \<and> wallsSymmetric (ErodeWalls m) \<and>
      excludedWalled (ErodeWalls m) \<and>
      (\<forall>i<length (cells m). state (cells m ! i) = 2 \<longrightarrow>
         state (cells (ErodeWalls m) ! i) = 2 \<and>
         (\<forall>d. walls (cells (ErodeWalls m) ! i) d = walls (cells m ! i) d))" by blast
  qed
  show "\<forall>k' m'. ShowSolution k' m True = Some (Inr m') \<and>
        state (cells m ! nat (startCellIndex m)) \<noteq> 2 \<longrightarrow>
      length (cells m') = length (cells m) \<and>
      (\<forall>i<length (cells m). state (cells m ! i) = 2 \<longrightarrow> state (cells m' ! i) = 2)"
    using ShowSolution_excluded [OF assms] by blast
qed

lemma maskedTree_facts:
  "validGrid maskedTree \<and> 2 * (width maskedTree * height maskedTree) < 9 \<and>
   wallsSymmetric maskedTree \<and> excludedWalled maskedTree \<and>
   1 < length (cells maskedTree) \<and> state (cells maskedTree ! 1) = 2 \<and>
   state (cells maskedTree ! nat (startCellIndex maskedTree)) \<noteq> 2"
proof -
  have "wallsSymmetric maskedTree" unfolding wallsSymmetric_code by code_simp
  moreover have "excludedWalled maskedTree" unfolding excludedWalled_code by code_simp
  ultimately show ?thesis
    by (simp add: validGrid_def maskedTree_def gridOf_def cellOf_def)
qed

theorem excluded_cells_inert_witness:
  "validGrid maskedTree \<and> 2 * (width maskedTree * height maskedTree) < 9 \<and>
   wallsSymmetric maskedTree \<and> excludedWalled maskedTree \<and>
   1 < length (cells maskedTree) \<and> state (cells maskedTree ! 1) = 2 \<and>
   state (cells maskedTree ! nat (startCellIndex maskedTree)) \<noteq> 2 \<and>
   (\<exists>m'. RegenerateFromSeed 9 (\<lambda>s i. 0) 1 maskedTree = Some (Inr m') \<and>
      state (cells m' ! 1) = 2 \<and> walls (cells m' ! 1) 0 \<and> walls (cells m' ! 1) 3) \<and>
   state (cells (ErodeWalls maskedTree) ! 1) = 2 \<and>
   walls (cells (ErodeWalls maskedTree) ! 1) 0 \<and> walls (cells (ErodeWalls maskedTree) ! 1) 3 \<and>
   (\<exists>m'. ShowSolution 5 maskedTree True = Some (Inr m') \<and>
      map state (cells m') = [1, 2, 1, 1] \<and> state (cells m' ! 1) = 2)"
proof -
  note f = maskedTree_facts
  from f have v: "validGrid maskedTree" by simp
  note t = excluded_cells_inert [OF v, of 9 "\<lambda>s i. 0" 1]
  from t f obtain m1 where
    r: "RegenerateFromSeed 9 (\<lambda>s i. 0) 1 maskedTree = Some (Inr m1)"
    and a1: "\<forall>i<length (cells maskedTree). state (cells maskedTree ! i) = 2 \<longrightarrow>
            state (cells m1 ! i) = 2 \<and> (\<forall>d<4. walls (cells m1 ! i) d)"
    by blast
  from a1 f have g: "state (cells m1 ! 1) = 2 \<and> walls (cells m1 ! 1) 0 \<and> walls (cells m1 ! 1) 3"
    by simp
  from t f have a2: "\<forall>i<length (cells maskedTree). state (cells maskedTree ! i) = 2 \<longrightarrow>
         state (cells (ErodeWalls maskedTree) ! i) = 2 \<and>
         (\<forall>d. walls (cells (ErodeWalls maskedTree) ! i) d = walls (cells maskedTree ! i) d)"
    by blast
  have w: "walls (cells maskedTree ! 1) 0" "walls (cells maskedTree ! 1) 3"
    by (simp_all add: maskedTree_def gridOf_def cellOf_def)
  from a2 f w have e: "state (cells (ErodeWalls maskedTree) ! 1) = 2 \<and>
     walls (cells (ErodeWalls maskedTree) ! 1) 0 \<and> walls (cells (ErodeWalls maskedTree) ! 1) 3"
    by simp
  have "case ShowSolution 5 maskedTree True of
      Some (Inr m') \<Rightarrow> map state (cells m') = [1, 2, 1, 1] | _ \<Rightarrow> False"
    by code_simp
  then obtain m2 where s: "ShowSolution 5 maskedTree True = Some (Inr m2)"
    and ms: "map state (cells m2) = [1, 2, 1, 1]"
    by (auto split: option.splits sum.splits)
  from t s f have "\<forall>i<length (cells maskedTree). state (cells maskedTree ! i) = 2 \<longrightarrow>
      state (cells m2 ! i) = 2"
    by blast
  with f have "state (cells m2 ! 1) = 2" by simp
  with f r g e s ms show ?thesis by auto
qed

text \<open>
  For the template \<open>threePixels\<close> (a green, a black and a red pixel in one row) the loop
  over the pixels of \<^verbatim>\<open>NewGridMazeFromTemplate\<close> leaves the cells of \<open>maskedRow\<close>: the cell
  1 is excluded and none of its walls is set.  \<^verbatim>\<open>RegenerateFromSeed\<close> then sets the four
  walls of this excluded cell.
\<close>

theorem regenerate_sets_excluded_walls:
  "(case templateLoop threePixels [(0, 0), (1, 0), (2, 0)]
           (replicate 3 zeroCell, [], [], - 1) of
      Inr (cs, ps, pe, ci) \<Rightarrow>
        map state cs = map state (cells maskedRow) \<and>
        map (\<lambda>c. map (walls c) [0, 1, 2, 3]) cs =
        map (\<lambda>c. map (walls c) [0, 1, 2, 3]) (cells maskedRow) \<and>
        ps = [startCellIndex maskedRow] \<and> pe = [endCellIndex maskedRow]
    | Inl e \<Rightarrow> False) \<and>
   state (cells maskedRow ! 1) = 2 \<and>
   map (walls (cells maskedRow ! 1)) [0, 1, 2, 3] = [False, False, False, False] \<and>
   (case RegenerateFromSeed 7 (\<lambda>s i. 0) 1 maskedRow of
      Some (Inr m') \<Rightarrow>
        state (cells m' ! 1) = 2 \<and> map (walls (cells m' ! 1)) [0, 1, 2, 3] = [True, True, True, True]
    | _ \<Rightarrow> False)"
  by code_simp


section \<open>Mazes that the excluded cells split\<close>

text \<open>
  Two cells are free neighbors when they are adjacent in the grid and neither of them is
  excluded.  Two cells are in the same region of the maze when a chain of free neighbors
  leads from one to the other.
\<close>

definition freeNeighbors :: "GridMaze \<Rightarrow> nat \<Rightarrow> nat \<Rightarrow> bool" where
  "freeNeighbors m a b \<longleftrightarrow>
     a < length (cells m) \<and> b < length (cells m) \<and>
     state (cells m ! a) \<noteq> 2 \<and> state (cells m ! b) \<noteq> 2 \<and>
     (b = a + 1 \<and> a mod width m < width m - 1 \<or> a = b + 1 \<and> b mod width m < width m - 1 \<or>
      b = a + width m \<or> a = b + width m)"

lemma passage_freeNeighbors:
  assumes ew: "excludedWalled m'" and l: "length (cells m') = length (cells m)"
    and w: "width m' = width m"
    and st: "\<forall>i<length (cells m). state (cells m' ! i) = state (cells m ! i)"
    and p: "passage m' a b"
  shows "freeNeighbors m a b"
proof -
  have ne: "state (cells m ! i) \<noteq> 2" if "i < length (cells m)" "\<not> walls (cells m' ! i) d" "d < 4"
    for i d
    using ew that st l by (auto simp: excludedWalled_def)
  from passage_less [OF p] l have ab: "a < length (cells m)" "b < length (cells m)" by simp_all
  from p consider "b = a + 1" "rightOpen m' a" | "b = a + width m'" "downOpen m' a"
    | "a = b + 1" "rightOpen m' b" | "a = b + width m'" "downOpen m' b"
    by (auto simp: passage_def)
  then show ?thesis
  proof cases
    case 1
    with ab ne [of a 2] ne [of b 0] w show ?thesis
      by (simp add: freeNeighbors_def rightOpen_def)
  next
    case 2
    with ab ne [of a 3] ne [of b 1] w show ?thesis
      by (simp add: freeNeighbors_def downOpen_def)
  next
    case 3
    with ab ne [of b 2] ne [of a 0] w show ?thesis
      by (simp add: freeNeighbors_def rightOpen_def)
  next
    case 4
    with ab ne [of b 3] ne [of a 1] w show ?thesis
      by (simp add: freeNeighbors_def downOpen_def)
  qed
qed

lemma generated_unsolvable:
  assumes v: "validGrid m" and g: "generatedFrom m sd m'"
    and s: "0 \<le> startCellIndex m" "startCellIndex m < int (length (cells m))"
    and sep: "\<not> (freeNeighbors m)\<^sup>*\<^sup>* (nat (startCellIndex m)) (nat (endCellIndex m))"
    and k: "width m * height m < k"
  shows "ShowSolution k m' True = Some (Inl FailedToSolveMaze)"
proof -
  define n where "n = width m * height m"
  from v have n: "length (cells m) = n" by (simp add: validGrid_def n_def)
  from g have d: "width m' = width m" "height m' = height m"
    "length (cells m') = length (cells m)"
    and st: "\<forall>i<length (cells m). state (cells m' ! i) = state (cells m ! i)"
    and se: "startCellIndex m' = (if startCellIndex m = - 1 then 0 else startCellIndex m)"
      "endCellIndex m' =
         (if startCellIndex m = - 1 then int (length (cells m)) - 1 else endCellIndex m)"
    and sym: "wallsSymmetric m'" and ew: "excludedWalled m'"
    by (simp_all add: generatedFrom_def)
  from se s(1) have se': "startCellIndex m' = startCellIndex m" "endCellIndex m' = endCellIndex m"
    by simp_all
  from v d n have gd: "gridDims n m'" by (simp add: gridDims_def validGrid_def n_def)
  from s se' n have s': "0 \<le> startCellIndex m'" "startCellIndex m' < int n" by simp_all
  from k have k': "n < k" by (simp add: n_def)
  have "\<not> solutionPath m' l" for l
  proof
    assume sp: "solutionPath m' l"
    from solutionPath_simplePath [OF gd sym sp]
    have "(passage m')\<^sup>*\<^sup>* (nat (startCellIndex m')) (nat (endCellIndex m'))"
      by (rule simplePath_conn)
    then have "(freeNeighbors m)\<^sup>*\<^sup>* (nat (startCellIndex m')) (nat (endCellIndex m'))"
    proof (induction rule: rtranclp_induct)
      case base
      then show ?case by simp
    next
      case (step y z)
      from passage_freeNeighbors [OF ew d(3) d(1) st step.hyps(2)] step.IH
      show ?case by (rule rtranclp.rtrancl_into_rtrancl [rotated])
    qed
    with sep se' show False by simp
  qed
  with ShowSolution_ok [OF gd s' k'] show ?thesis by blast
qed

text \<open>
  A maze of one column and three rows whose middle cell is excluded, before generation;
  the start cell is the top one and the end cell the bottom one.
\<close>

definition maskedColumn :: GridMaze where
  "maskedColumn = \<lparr>width = 1, height = 3,
     cells = [zeroCell, zeroCell\<lparr>state := 2\<rparr>, zeroCell],
     startCellIndex = 0, endCellIndex = 2, neighbors = [], randomSeed = 0\<rparr>"

text \<open>A template of one column: a green pixel, a black one below it, a red one at the bottom.\<close>

definition barredColumn :: image where
  "barredColumn = \<lparr>minX = 0, minY = 0, maxX = 1, maxY = 3,
     At = (\<lambda>x y. if y = 0 then rgb 0 0xffff 0 else if y = 1 then rgb 0 0 0 else rgb 0xffff 0 0)\<rparr>"

text \<open>
  Claim C4.  Generation reports no error for a maze that the excluded cells split: for
  every maze of \<open>width * height\<close> cells, whatever its excluded cells,
  \<^verbatim>\<open>RegenerateFromSeed\<close> returns a maze.  When no chain of free neighbors leads from the
  start cell to the end cell, it is \<^verbatim>\<open>ShowSolution(true)\<close>, run on the maze that generation
  returned, that reports the error "failed to solve maze".
\<close>

theorem split_maze_generated_unsolved:
  assumes "validGrid m" and "2 * (width m * height m) < k"
  shows "\<exists>m'. RegenerateFromSeed k src sd m = Some (Inr m') \<and>
     (0 \<le> startCellIndex m \<and> startCellIndex m < int (length (cells m)) \<and>
      \<not> (freeNeighbors m)\<^sup>*\<^sup>* (nat (startCellIndex m)) (nat (endCellIndex m)) \<longrightarrow>
      (\<forall>k'. width m * height m < k' \<longrightarrow>
         ShowSolution k' m' True = Some (Inl FailedToSolveMaze)))"
proof -
  from RegenerateFromSeed_ok [OF assms, of src sd] obtain m' where
    r: "RegenerateFromSeed k src sd m = Some (Inr m')" and g: "generatedFrom m sd m'" by blast
  from generated_unsolvable [OF assms(1) g]
  have "0 \<le> startCellIndex m \<and> startCellIndex m < int (length (cells m)) \<and>
      \<not> (freeNeighbors m)\<^sup>*\<^sup>* (nat (startCellIndex m)) (nat (endCellIndex m)) \<longrightarrow>
      (\<forall>k'. width m * height m < k' \<longrightarrow>
         ShowSolution k' m' True = Some (Inl FailedToSolveMaze))"
    by blast
  with r show ?thesis by blast
qed

lemma maskedColumn_split:
  "\<not> (freeNeighbors maskedColumn)\<^sup>*\<^sup>* (nat (startCellIndex maskedColumn))
       (nat (endCellIndex maskedColumn))"
proof -
  have "\<not> freeNeighbors maskedColumn x y" for x y
    by (auto simp: freeNeighbors_def maskedColumn_def zeroCell_def nth_Cons' less_Suc_eq
        numeral_3_eq_3)
  then have "(freeNeighbors maskedColumn)\<^sup>*\<^sup>* 0 2 \<longleftrightarrow> (0 :: nat) = 2"
    by (intro conn_no_edges) simp
  then show ?thesis by (simp add: maskedColumn_def)
qed

theorem split_maze_generated_unsolved_witness:
  "validGrid maskedColumn \<and> 2 * (width maskedColumn * height maskedColumn) < 7 \<and>
   0 \<le> startCellIndex maskedColumn \<and>
   startCellIndex maskedColumn < int (length (cells maskedColumn)) \<and>
   \<not> (freeNeighbors maskedColumn)\<^sup>*\<^sup>* (nat (startCellIndex maskedColumn))
       (nat (endCellIndex maskedColumn)) \<and>
   width maskedColumn * height maskedColumn < 4 \<and>
   (\<exists>m'. RegenerateFromSeed 7 (\<lambda>s i. 0) 1 maskedColumn = Some (Inr m') \<and>
      ShowSolution 4 m' True = Some (Inl FailedToSolveMaze))"
proof -
  have v: "validGrid maskedColumn" by (simp add: validGrid_def maskedColumn_def)
  have k: "2 * (width maskedColumn * height maskedColumn) < 7"
    "width maskedColumn * height maskedColumn < 4"
    "0 \<le> startCellIndex maskedColumn"
    "startCellIndex maskedColumn < int (length (cells maskedColumn))"
    by (simp_all add: maskedColumn_def)
  from split_maze_generated_unsolved [OF v k(1), of "\<lambda>s i. 0" 1] k maskedColumn_split v
  show ?thesis by blast
qed

text \<open>
  For the template \<open>barredColumn\<close>, whose middle row is excluded and whose start and end
  cells lie above and below it, \<^verbatim>\<open>NewGridMazeFromTemplate\<close> returns a maze and no error.
\<close>

theorem split_template_generated:
  "(case NewGridMazeFromTemplate 7 (\<lambda>s i. 0) 1 barredColumn 1 of
      Some (Inr m) \<Rightarrow>
        width m = 1 \<and> height m = 3 \<and> map state (cells m) = [0, 2, 0] \<and>
        startCellIndex m = 0 \<and> endCellIndex m = 2
    | _ \<Rightarrow> False)"
  by code_simp

end
